theory Spec2Isabelle
  imports Main "HOL-Library.Sublist"
begin

section \<open>Text\<close>

text \<open>
  A Python \<open>str\<close> is a sequence of Unicode code points, and every operation of the script
  (\<open>split\<close>, \<open>rstrip\<close>, \<open>lstrip\<close>, \<open>replace\<close>, \<open>re.match\<close>) counts code points, not bytes.
  A code point is a natural number here, a string a list of them.
\<close>

type_synonym codepoint = nat
type_synonym ustring = "codepoint list"

abbreviation NL :: codepoint where "NL \<equiv> 0x0A"
abbreviation FW :: codepoint where "FW \<equiv> 0x3000"
abbreviation BOM :: codepoint where "BOM \<equiv> 0xFEFF"
abbreviation DI :: codepoint where "DI \<equiv> 0x7B2C"
abbreviation ZHANG :: codepoint where "ZHANG \<equiv> 0x7AE0"
abbreviation CR :: codepoint where "CR \<equiv> 0x0D"

text \<open>
  \<open>NL\<close> is the line feed, \<open>FW\<close> the full-width (ideographic) space U+3000, \<open>BOM\<close> the
  byte-order mark U+FEFF, \<open>DI\<close> and \<open>ZHANG\<close> the two characters that frame a chapter number.
  \<open>CR\<close> is the carriage return.

  The characters \<open>str.strip\<close>, \<open>str.rstrip\<close> and \<open>str.isspace\<close> treat as whitespace
  (CPython 3, \<open>_PyUnicode_IsWhitespace\<close>): U+3000 is one of them, U+FEFF is not.
\<close>

definition isspace :: "codepoint \<Rightarrow> bool" where
  "isspace c \<longleftrightarrow>
     (0x09 \<le> c \<and> c \<le> 0x0D) \<or> (0x1C \<le> c \<and> c \<le> 0x20) \<or> c = 0x85 \<or> c = 0xA0 \<or>
     c = 0x1680 \<or> (0x2000 \<le> c \<and> c \<le> 0x200A) \<or> c = 0x2028 \<or> c = 0x2029 \<or>
     c = 0x202F \<or> c = 0x205F \<or> c = 0x3000"

definition lstrip :: "ustring \<Rightarrow> ustring" where
  "lstrip s = dropWhile isspace s"

definition rstrip :: "ustring \<Rightarrow> ustring" where
  "rstrip s = rev (dropWhile isspace (rev s))"

definition strip :: "ustring \<Rightarrow> ustring" where
  "strip s = lstrip (rstrip s)"

text \<open>\<open>s.lstrip(chars)\<close>: drop the leading characters that occur in \<open>chars\<close>.\<close>

definition lstrip_chars :: "ustring \<Rightarrow> ustring \<Rightarrow> ustring" where
  "lstrip_chars chars s = dropWhile (\<lambda>c. c \<in> set chars) s"

text \<open>\<open>s.replace(c, '')\<close> for a one-character \<open>c\<close>: every occurrence is deleted.\<close>

definition replace_by_empty :: "codepoint \<Rightarrow> ustring \<Rightarrow> ustring" where
  "replace_by_empty c s = filter (\<lambda>x. x \<noteq> c) s"

text \<open>\<open>s.split(sep)\<close> for a one-character separator: never the empty list.\<close>

fun split :: "codepoint \<Rightarrow> ustring \<Rightarrow> ustring list" where
  "split sep [] = [[]]"
| "split sep (c # cs) =
     (if c = sep then [] # split sep cs
      else (case split sep cs of [] \<Rightarrow> [[c]] | l # ls \<Rightarrow> (c # l) # ls))"

text \<open>\<open>sep.join(lines)\<close> for a one-character separator.\<close>

fun join :: "codepoint \<Rightarrow> ustring list \<Rightarrow> ustring" where
  "join sep [] = []"
| "join sep [l] = l"
| "join sep (l # m # ls) = l @ sep # join sep (m # ls)"

section \<open>Chapter headings\<close>

text \<open>
  The two patterns of \<open>chapter_patterns\<close>:
  \<open>DI\<close>, then one or more characters that are one of the thirteen numerals of \<open>cjk_numeral\<close>
  or match \<^verbatim>\<open>\d\<close>, then \<open>ZHANG\<close>; and \<open>DI\<close>, one or more \<^verbatim>\<open>\d\<close>, \<open>ZHANG\<close>. Both are anchored at
  the start of the line (\<open>re.match\<close>), and what follows \<open>ZHANG\<close> is free.
  On a \<open>str\<close> pattern \<^verbatim>\<open>\d\<close> is every Unicode decimal digit (category Nd), a table of the
  interpreter's Unicode database that grows with its version; the model takes that class as
  the parameter \<open>dig\<close>. \<open>ascii_digit\<close> is the part of it every version has.
\<close>

definition ascii_digit :: "codepoint \<Rightarrow> bool" where
  "ascii_digit c \<longleftrightarrow> 0x30 \<le> c \<and> c \<le> 0x39"

definition cjk_numeral :: "codepoint \<Rightarrow> bool" where
  "cjk_numeral c \<longleftrightarrow>
     c \<in> set [0x4E00, 0x4E8C, 0x4E09, 0x56DB, 0x4E94, 0x516D, 0x4E03, 0x516B, 0x4E5D,
              0x5341, 0x767E, 0x5343, 0x4E07]"

text \<open>
  \<open>cls+e\<close> at the start of \<open>s\<close>: one or more characters of the class and then \<open>e\<close>. The
  regular expression backtracks, so every length of the run is tried.
\<close>

fun plus_then :: "(codepoint \<Rightarrow> bool) \<Rightarrow> codepoint \<Rightarrow> ustring \<Rightarrow> bool" where
  "plus_then cls e [] = False"
| "plus_then cls e (c # cs) = (cls c \<and> (take 1 cs = [e] \<or> plus_then cls e cs))"

datatype pattern = NumeralChapter | DigitChapter

fun re_match :: "(codepoint \<Rightarrow> bool) \<Rightarrow> pattern \<Rightarrow> ustring \<Rightarrow> bool" where
  "re_match dig NumeralChapter s =
     (take 1 s = [DI] \<and> plus_then (\<lambda>c. cjk_numeral c \<or> dig c) ZHANG (drop 1 s))"
| "re_match dig DigitChapter s =
     (take 1 s = [DI] \<and> plus_then dig ZHANG (drop 1 s))"

definition chapter_patterns :: "pattern list" where
  "chapter_patterns = [NumeralChapter, DigitChapter]"

section \<open>The Normalizer: \<open>optimize_novel\<close>, lines 29 to 105\<close>

record run_stats =
  total_lines :: nat
  empty_lines_removed :: nat
  chapters_found :: nat
  formatting_fixed :: nat
  trailing_spaces_removed :: nat

record loop_state =
  optimized_lines :: "ustring list"
  prev_empty :: bool
  stats :: run_stats

text \<open>Lines 48 and 49: a line that \<open>rstrip\<close> shortens is counted.\<close>

definition count_trailing :: "ustring \<Rightarrow> loop_state \<Rightarrow> loop_state" where
  "count_trailing ln st =
     (if rstrip ln \<noteq> ln
      then st\<lparr>stats := (stats st)\<lparr>trailing_spaces_removed :=
                                     trailing_spaces_removed (stats st) + 1\<rparr>\<rparr>
      else st)"

text \<open>Lines 53 to 57, the body of \<open>if not stripped\<close>.\<close>

definition blank_line :: "loop_state \<Rightarrow> loop_state" where
  "blank_line st =
     (if \<not> prev_empty st
      then st\<lparr>optimized_lines := optimized_lines st @ [[]], prev_empty := True\<rparr>
      else st\<lparr>stats := (stats st)\<lparr>empty_lines_removed := empty_lines_removed (stats st) + 1\<rparr>\<rparr>)"

text \<open>Lines 75 to 83, the body of \<open>if re.match(pattern, test_line)\<close> (without \<open>is_chapter = True\<close>).\<close>

definition emit_chapter :: "ustring \<Rightarrow> ustring list \<Rightarrow> nat \<Rightarrow> loop_state \<Rightarrow> loop_state" where
  "emit_chapter test_line original_lines i st =
     (let st1 = st\<lparr>stats := (stats st)\<lparr>chapters_found := chapters_found (stats st) + 1\<rparr>\<rparr>;
          st2 = (if optimized_lines st1 \<noteq> [] \<and> strip (last (optimized_lines st1)) \<noteq> []
                 then st1\<lparr>optimized_lines := optimized_lines st1 @ [[]]\<rparr> else st1);
          st3 = st2\<lparr>optimized_lines := optimized_lines st2 @ [[FW, FW] @ test_line]\<rparr>
      in if i + 1 < length original_lines \<and> strip (original_lines ! (i + 1)) \<noteq> []
         then st3\<lparr>optimized_lines := optimized_lines st3 @ [[]]\<rparr> else st3)"

text \<open>
  The \<open>for pattern in chapter_patterns\<close> loop (lines 70 to 84). It returns \<open>is_chapter\<close> and
  the state; the first pattern that matches emits the heading and breaks.
\<close>

fun chapter_loop ::
  "(codepoint \<Rightarrow> bool) \<Rightarrow> pattern list \<Rightarrow> ustring \<Rightarrow> ustring list \<Rightarrow> nat \<Rightarrow> loop_state
     \<Rightarrow> bool \<times> loop_state" where
  "chapter_loop dig [] stripped original_lines i st = (False, st)"
| "chapter_loop dig (p # ps) stripped original_lines i st =
     (let test_line = lstrip_chars [FW] stripped in
      if re_match dig p test_line then (True, emit_chapter test_line original_lines i st)
      else chapter_loop dig ps stripped original_lines i st)"

text \<open>Lines 89 to 98, the body of \<open>if not is_chapter\<close>.\<close>

definition emit_paragraph :: "ustring \<Rightarrow> loop_state \<Rightarrow> loop_state" where
  "emit_paragraph stripped st =
     (let content_part = lstrip_chars [FW] stripped;
          normalized_line = [FW, FW] @ content_part;
          st1 = (if stripped \<noteq> normalized_line
                 then st\<lparr>stats := (stats st)\<lparr>formatting_fixed := formatting_fixed (stats st) + 1\<rparr>\<rparr>
                 else st)
      in st1\<lparr>optimized_lines := optimized_lines st1 @ [normalized_line]\<rparr>)"

text \<open>One turn of the \<open>while i < len(original_lines)\<close> loop (lines 44 to 100), for \<open>i\<close> in range.\<close>

definition process_line ::
  "(codepoint \<Rightarrow> bool) \<Rightarrow> ustring list \<Rightarrow> nat \<Rightarrow> loop_state \<Rightarrow> loop_state" where
  "process_line dig original_lines i st =
     (let ln = original_lines ! i;
          stripped = replace_by_empty BOM (rstrip ln);
          st1 = count_trailing ln st
      in if stripped = [] then blank_line st1
         else
           (let st2 = st1\<lparr>prev_empty := False\<rparr>;
                (is_chapter, st3) = chapter_loop dig chapter_patterns stripped original_lines i st2
            in if \<not> is_chapter then emit_paragraph stripped st3 else st3))"

function optimize_loop ::
  "(codepoint \<Rightarrow> bool) \<Rightarrow> ustring list \<Rightarrow> nat \<Rightarrow> loop_state \<Rightarrow> loop_state" where
  "optimize_loop dig original_lines i st =
     (if i < length original_lines
      then optimize_loop dig original_lines (i + 1) (process_line dig original_lines i st)
      else st)"
  by pat_completeness auto
termination
  by (relation "measure (\<lambda>(dig, original_lines, i, st). length original_lines - i)") auto

declare optimize_loop.simps [simp del]

text \<open>The loop of lines 103 to 105: trailing lines that strip to nothing are popped and counted.\<close>

function trim_trailing :: "loop_state \<Rightarrow> loop_state" where
  "trim_trailing st =
     (if optimized_lines st \<noteq> [] \<and> strip (last (optimized_lines st)) = []
      then trim_trailing
             (st\<lparr>optimized_lines := butlast (optimized_lines st),
                 stats := (stats st)\<lparr>empty_lines_removed := empty_lines_removed (stats st) + 1\<rparr>\<rparr>)
      else st)"
  by pat_completeness auto
termination
  by (relation "measure (\<lambda>st. length (optimized_lines st))") auto

declare trim_trailing.simps [simp del]

text \<open>
  Lines 29 to 105 as a whole: from the text that was read (after the decoder and lines 23, 24
  removed a leading byte-order mark) to the final \<open>optimized_lines\<close> and \<open>stats\<close>.
\<close>

definition initial_state :: "ustring list \<Rightarrow> loop_state" where
  "initial_state original_lines =
     \<lparr>optimized_lines = [], prev_empty = False,
      stats = \<lparr>total_lines = length original_lines, empty_lines_removed = 0, chapters_found = 0,
               formatting_fixed = 0, trailing_spaces_removed = 0\<rparr>\<rparr>"

definition normalize_text :: "(codepoint \<Rightarrow> bool) \<Rightarrow> ustring \<Rightarrow> loop_state" where
  "normalize_text dig content =
     (let original_lines = split NL content
      in trim_trailing (optimize_loop dig original_lines 0 (initial_state original_lines)))"

section \<open>Files and the console\<close>

text \<open>
  A file is the text its bytes decode to as UTF-8 (after the translation of line ends that
  text mode does), or it cannot be decoded, or it cannot be opened for reading. A path with no
  file is missing. \<open>read_only\<close> says where opening for writing fails. A failed \<open>open\<close> for
  writing leaves the file as it was; a write that fails half way is not modelled.
\<close>

datatype io_error = FileNotFoundError | PermissionError | UnicodeDecodeError

datatype disk_file = Text ustring | Undecodable | Unreadable

datatype issue_type = ConsecutiveEmpty | TrailingSpace | BOMChar

datatype issue_message = ConsecutiveEmptyFound nat | TrailingSpaceFound | BOMCharFound

record issue =
  line :: nat
  type :: issue_type
  message :: issue_message

datatype report =
    ReadFailed io_error
  | WriteFailed io_error
  | OptimizeDone string
  | TotalLines nat
  | OptimizedLines nat
  | EmptyLinesRemoved nat
  | TrailingSpacesRemoved nat
  | ChaptersFound nat
  | FormattingFixed nat
  | LintFound nat
  | LintIssue issue
  | LintMore nat
  | LintPassed

record world =
  files :: "string \<rightharpoonup> disk_file"
  read_only :: "string \<Rightarrow> bool"
  console :: "report list"

definition print :: "report list \<Rightarrow> world \<Rightarrow> world" where
  "print rs w = w\<lparr>console := console w @ rs\<rparr>"

text \<open>The codec \<open>utf-8-sig\<close> drops one byte-order mark at the very start of the file.\<close>

definition utf_8_sig :: "ustring \<Rightarrow> ustring" where
  "utf_8_sig raw = (if take 1 raw = [BOM] then drop 1 raw else raw)"

text \<open>
  What \<open>open\<close> in text mode (line 20, \<open>newline\<close> left at its default) does to the line ends
  of the decoded bytes before \<open>read\<close> returns them: a carriage return followed by a line feed
  becomes one line feed, and so does a carriage return alone. A file whose bytes decode to
  \<open>t\<close> is \<open>Text (universal_newlines t)\<close>.
\<close>

fun universal_newlines :: "ustring \<Rightarrow> ustring" where
  "universal_newlines [] = []"
| "universal_newlines [c] = (if c = CR then [NL] else [c])"
| "universal_newlines (c # d # cs) =
     (if c = CR \<and> d = NL then NL # universal_newlines cs
      else if c = CR then NL # universal_newlines (d # cs)
      else c # universal_newlines (d # cs))"

definition read_text :: "world \<Rightarrow> string \<Rightarrow> io_error + ustring" where
  "read_text w p =
     (case files w p of
        None \<Rightarrow> Inl FileNotFoundError
      | Some Unreadable \<Rightarrow> Inl PermissionError
      | Some Undecodable \<Rightarrow> Inl UnicodeDecodeError
      | Some (Text raw) \<Rightarrow> Inr (utf_8_sig raw))"

definition write_text :: "string \<Rightarrow> ustring \<Rightarrow> world \<Rightarrow> io_error + world" where
  "write_text p text w =
     (if read_only w p then Inl PermissionError
      else Inr (w\<lparr>files := (files w)(p \<mapsto> Text text)\<rparr>))"

text \<open>\<open>f.readlines()\<close>: every line keeps its line feed; the last one may have none.\<close>

fun readlines :: "ustring \<Rightarrow> ustring list" where
  "readlines [] = []"
| "readlines (c # cs) =
     (if c = NL then [NL] # readlines cs
      else (case readlines cs of [] \<Rightarrow> [[c]] | l # ls \<Rightarrow> (c # l) # ls))"

section \<open>\<open>optimize_novel\<close>\<close>

text \<open>Lines 23 and 24: \<open>if content.startswith(BOM): content = content[1:]\<close>.\<close>

definition strip_leading_bom :: "ustring \<Rightarrow> ustring" where
  "strip_leading_bom content = (if take 1 content = [BOM] then drop 1 content else content)"

definition optimize_novel ::
  "(codepoint \<Rightarrow> bool) \<Rightarrow> string \<Rightarrow> string option \<Rightarrow> world \<Rightarrow> bool \<times> world" where
  "optimize_novel dig input_file output_file_arg w =
     (let output_file = (case output_file_arg of None \<Rightarrow> input_file | Some p \<Rightarrow> p)
      in case read_text w input_file of
           Inl e \<Rightarrow> (False, print [ReadFailed e] w)
         | Inr content0 \<Rightarrow>
             (let content = strip_leading_bom content0;
                  st = normalize_text dig content
              in case write_text output_file (join NL (optimized_lines st)) w of
                   Inl e \<Rightarrow> (False, print [WriteFailed e] w)
                 | Inr w' \<Rightarrow>
                     (True,
                      print [OptimizeDone output_file,
                             TotalLines (total_lines (stats st)),
                             OptimizedLines (length (optimized_lines st)),
                             EmptyLinesRemoved (empty_lines_removed (stats st)),
                             TrailingSpacesRemoved (trailing_spaces_removed (stats st)),
                             ChaptersFound (chapters_found (stats st)),
                             FormattingFixed (formatting_fixed (stats st))] w')))"

section \<open>The Lint Pass: \<open>lint_check\<close>\<close>

text \<open>
  One turn of the \<open>for i, line in enumerate(lines, 1)\<close> loop (lines 140 to 176), on the counter
  \<open>consecutive_empty\<close> and the list \<open>issues\<close>; the loop variable \<open>line\<close> is \<open>ln\<close> here, since
  \<open>line\<close> is a field of an issue. Check 3 (lines 163 to 168) ends in \<open>pass\<close>: it changes neither.
\<close>

definition lint_line :: "nat \<Rightarrow> ustring \<Rightarrow> nat \<times> issue list \<Rightarrow> nat \<times> issue list" where
  "lint_line i ln st =
     (let (consecutive_empty, issues) = st;
          stripped = strip ln;
          (consecutive_empty1, issues1) =
             (if stripped = [] then
                (consecutive_empty + 1,
                 if consecutive_empty + 1 > 2
                 then issues @ [\<lparr>line = i, type = ConsecutiveEmpty,
                                  message = ConsecutiveEmptyFound (consecutive_empty + 1)\<rparr>]
                 else issues)
              else (0, issues));
          issues2 = (if rstrip ln \<noteq> ln
                     then issues1 @ [\<lparr>line = i, type = TrailingSpace, message = TrailingSpaceFound\<rparr>]
                     else issues1);
          issues3 = (if BOM \<in> set ln
                     then issues2 @ [\<lparr>line = i, type = BOMChar, message = BOMCharFound\<rparr>]
                     else issues2)
      in (consecutive_empty1, issues3))"

fun lint_loop :: "nat \<Rightarrow> ustring list \<Rightarrow> nat \<times> issue list \<Rightarrow> nat \<times> issue list" where
  "lint_loop i [] st = st"
| "lint_loop i (ln # lines) st = lint_loop (i + 1) lines (lint_line i ln st)"

text \<open>The issues \<open>lint_check\<close> collects for a file whose bytes decode to \<open>raw\<close>.\<close>

definition lint_issues :: "ustring \<Rightarrow> issue list" where
  "lint_issues raw = snd (lint_loop 1 (readlines (utf_8_sig raw)) (0, []))"

definition lint_check :: "string \<Rightarrow> world \<Rightarrow> world" where
  "lint_check input_file w =
     (case files w input_file of
        None \<Rightarrow> print [ReadFailed FileNotFoundError] w
      | Some Unreadable \<Rightarrow> print [ReadFailed PermissionError] w
      | Some Undecodable \<Rightarrow> print [ReadFailed UnicodeDecodeError] w
      | Some (Text raw) \<Rightarrow>
          (let issues = lint_issues raw
           in if issues \<noteq> [] then
                print ([LintFound (length issues)] @ map LintIssue (take 20 issues) @
                       (if length issues > 20 then [LintMore (length issues - 20)] else [])) w
              else print [LintPassed] w))"

section \<open>Notions the properties are stated with\<close>

text \<open>A line is a chapter heading when one of the patterns matches it (the value of \<open>is_chapter\<close>).\<close>

definition is_chapter :: "(codepoint \<Rightarrow> bool) \<Rightarrow> ustring \<Rightarrow> bool" where
  "is_chapter dig test_line \<longleftrightarrow> list_ex (\<lambda>p. re_match dig p test_line) chapter_patterns"

text \<open>
  What \<open>optimize_novel\<close> computes for a file whose bytes decode to \<open>raw\<close>: the final state of
  the transformation, and the text it writes.
\<close>

definition final_state :: "(codepoint \<Rightarrow> bool) \<Rightarrow> ustring \<Rightarrow> loop_state" where
  "final_state dig raw = normalize_text dig (strip_leading_bom (utf_8_sig raw))"

definition normalized :: "(codepoint \<Rightarrow> bool) \<Rightarrow> ustring \<Rightarrow> ustring" where
  "normalized dig raw = join NL (optimized_lines (final_state dig raw))"

text \<open>
  The line ends of a text as the bytes have them: a line feed, a carriage return, or the two
  in this order counted once.
\<close>

fun count_line_ends :: "ustring \<Rightarrow> nat" where
  "count_line_ends [] = 0"
| "count_line_ends [c] = (if c = CR \<or> c = NL then 1 else 0)"
| "count_line_ends (c # d # cs) =
     (if c = CR \<and> d = NL then 1 + count_line_ends cs
      else if c = CR \<or> c = NL then 1 + count_line_ends (d # cs)
      else count_line_ends (d # cs))"

text \<open>The number of empty lines right before and right after position \<open>k\<close> of a document.\<close>

definition blanks_before :: "ustring list \<Rightarrow> nat \<Rightarrow> nat" where
  "blanks_before doc k = length (takeWhile (\<lambda>l. l = []) (rev (take k doc)))"

definition blanks_after :: "ustring list \<Rightarrow> nat \<Rightarrow> nat" where
  "blanks_after doc k = length (takeWhile (\<lambda>l. l = []) (drop (k + 1) doc))"

text \<open>
  The example of the specification: a heading numbered with a numeral, a paragraph, two empty
  lines, a heading numbered with the digit 2, a paragraph.
\<close>

definition chapter_sample :: ustring where
  "chapter_sample =
     [DI, 0x4E00, ZHANG, 0x20, 0x5F00, 0x59CB, NL, 0x5185, 0x5BB9, NL, NL, NL,
      DI, 0x32, ZHANG, 0x20, 0x7EE7, 0x7EED, NL, 0x66F4, 0x591A, 0x5185, 0x5BB9]"

text \<open>A heading, a line that holds only a byte-order mark, and the letter a.\<close>

definition bom_line_sample :: ustring where
  "bom_line_sample = [DI, 0x4E00, ZHANG, NL, BOM, NL, 0x61]"

text \<open>The letter a, a line that holds a space and a byte-order mark, and the letter b.\<close>

definition space_bom_sample :: ustring where
  "space_bom_sample = [0x61, NL, 0x20, BOM, NL, 0x62]"

text \<open>
  The value of \<open>consecutive_empty\<close> after line \<open>k\<close> (counted from 0) of \<open>lines\<close>, when it was
  \<open>c\<close> before the first of them: a running count that a line which is not blank resets.
\<close>

fun consecutive_empty_at :: "nat \<Rightarrow> ustring list \<Rightarrow> nat \<Rightarrow> nat" where
  "consecutive_empty_at c [] k = c"
| "consecutive_empty_at c (l # ls) 0 = (if strip l = [] then c + 1 else 0)"
| "consecutive_empty_at c (l # ls) (Suc k) =
     consecutive_empty_at (if strip l = [] then c + 1 else 0) ls k"

text \<open>How many issues of type \<open>t\<close> carry the line number \<open>n\<close>.\<close>

definition issues_at :: "issue_type \<Rightarrow> nat \<Rightarrow> issue list \<Rightarrow> nat" where
  "issues_at t n issues = length (filter (\<lambda>x. type x = t \<and> line x = n) issues)"

text \<open>
  A file that starts with a byte-order mark and has seven lines: the letter a, four blank
  lines (empty, a space, a full-width space, empty), the letter b with a byte-order mark, and
  a byte-order mark with no line feed.
\<close>

definition lint_sample :: ustring where
  "lint_sample = [BOM, 0x61, NL, NL, 0x20, NL, FW, NL, NL, 0x62, BOM, NL, BOM]"

text \<open>
  What the loop emits for a line that is not blank, heading or paragraph: two full-width
  spaces and the line without its trailing whitespace, its byte-order marks and its leading
  full-width spaces.
\<close>

definition indent_of :: "ustring \<Rightarrow> ustring" where
  "indent_of ln = [FW, FW] @ lstrip_chars [FW] (replace_by_empty BOM (rstrip ln))"

text \<open>A line starts with exactly two full-width spaces: the third character is not one.\<close>

definition indented :: "ustring \<Rightarrow> bool" where
  "indented l \<longleftrightarrow> take 2 l = [FW, FW] \<and> take 1 (drop 2 l) \<noteq> [FW]"

text \<open>The state after \<open>n\<close> turns of the \<open>while\<close> loop that start at line \<open>i\<close>.\<close>

fun loop_steps ::
  "(codepoint \<Rightarrow> bool) \<Rightarrow> ustring list \<Rightarrow> nat \<Rightarrow> nat \<Rightarrow> loop_state \<Rightarrow> loop_state" where
  "loop_steps dig ls i 0 st = st"
| "loop_steps dig ls i (Suc n) st = loop_steps dig ls (i + 1) n (process_line dig ls i st)"

text \<open>
  The form of a line the loop has emitted for a text without byte-order marks, when it is not
  empty: two full-width spaces, then at least one character, the first of them not a
  full-width space, the last not whitespace, and no byte-order mark.
\<close>

definition paragraph_form :: "ustring \<Rightarrow> bool" where
  "paragraph_form l \<longleftrightarrow>
     take 2 l = [FW, FW] \<and> drop 2 l \<noteq> [] \<and> take 1 (drop 2 l) \<noteq> [FW] \<and>
     \<not> isspace (last l) \<and> BOM \<notin> set l"

text \<open>An output line is a heading when the patterns match it without its indentation.\<close>

definition heading_line :: "(codepoint \<Rightarrow> bool) \<Rightarrow> ustring \<Rightarrow> bool" where
  "heading_line dig l \<longleftrightarrow> is_chapter dig (lstrip_chars [FW] l)"

text \<open>
  What holds of two adjacent lines of a normalized document: they are not both empty, and the
  line next to a heading, on either side, is empty.
\<close>

definition neighbours :: "(codepoint \<Rightarrow> bool) \<Rightarrow> ustring \<Rightarrow> ustring \<Rightarrow> bool" where
  "neighbours dig a b \<longleftrightarrow>
     \<not> (a = [] \<and> b = []) \<and> (heading_line dig a \<longrightarrow> b = []) \<and> (heading_line dig b \<longrightarrow> a = [])"

text \<open>
  The invariant of the \<open>while\<close> loop on a text without byte-order marks, before line \<open>i\<close> is
  processed: the lines emitted so far have the form above and are neighbours; \<open>prev_empty\<close>
  says the last of them is empty; an empty last line that \<open>prev_empty\<close> does not know of was
  added after a heading, and then line \<open>i\<close> exists and is not blank; after a heading that is
  still the last line, line \<open>i\<close> is blank or absent.
\<close>

definition loop_inv ::
  "(codepoint \<Rightarrow> bool) \<Rightarrow> ustring list \<Rightarrow> nat \<Rightarrow> loop_state \<Rightarrow> bool" where
  "loop_inv dig ls i st \<longleftrightarrow>
     (\<forall>l\<in>set (optimized_lines st). l = [] \<or> paragraph_form l) \<and>
     successively (neighbours dig) (optimized_lines st) \<and>
     (prev_empty st \<longrightarrow> optimized_lines st \<noteq> [] \<and> last (optimized_lines st) = []) \<and>
     (optimized_lines st \<noteq> [] \<and> last (optimized_lines st) = [] \<and> \<not> prev_empty st \<longrightarrow>
        i < length ls \<and> strip (ls ! i) \<noteq> []) \<and>
     (optimized_lines st \<noteq> [] \<and> heading_line dig (last (optimized_lines st)) \<longrightarrow>
        length ls \<le> i \<or> strip (ls ! i) = [])"

text \<open>A document in normal form: the form of the loop's output, with no blank line at the end.\<close>

definition normal_form :: "(codepoint \<Rightarrow> bool) \<Rightarrow> ustring list \<Rightarrow> bool" where
  "normal_form dig doc \<longleftrightarrow>
     (\<forall>l\<in>set doc. l = [] \<or> paragraph_form l) \<and> successively (neighbours dig) doc \<and>
     (doc = [] \<or> strip (last doc) \<noteq> [])"

section \<open>The loop body, case by case\<close>

lemma chapter_loop_eq:
  "chapter_loop dig chapter_patterns stripped ls i st =
     (if is_chapter dig (lstrip_chars [FW] stripped)
      then (True, emit_chapter (lstrip_chars [FW] stripped) ls i st) else (False, st))"
  by (simp add: chapter_patterns_def is_chapter_def Let_def)

lemma process_line_eq:
  "process_line dig ls i st =
     (if replace_by_empty BOM (rstrip (ls ! i)) = [] then blank_line (count_trailing (ls ! i) st)
      else if is_chapter dig (lstrip_chars [FW] (replace_by_empty BOM (rstrip (ls ! i))))
      then emit_chapter (lstrip_chars [FW] (replace_by_empty BOM (rstrip (ls ! i)))) ls i
             ((count_trailing (ls ! i) st)\<lparr>prev_empty := False\<rparr>)
      else emit_paragraph (replace_by_empty BOM (rstrip (ls ! i)))
             ((count_trailing (ls ! i) st)\<lparr>prev_empty := False\<rparr>))"
  by (simp add: process_line_def Let_def chapter_loop_eq)

lemmas eval_simps = optimize_loop.simps process_line_def trim_trailing.simps
  count_trailing_def blank_line_def emit_chapter_def emit_paragraph_def
  initial_state_def strip_def lstrip_def rstrip_def lstrip_chars_def replace_by_empty_def
  isspace_def ascii_digit_def cjk_numeral_def chapter_patterns_def Let_def

section \<open>The line count\<close>

lemma split_not_Nil: "split sep s \<noteq> []"
  by (induction s) (auto split: list.splits)

lemma length_split: "length (split sep s) = count_list s sep + 1"
proof (induction s)
  case Nil
  show ?case by simp
next
  case (Cons c cs)
  obtain l ls where "split sep cs = l # ls"
    using split_not_Nil [of sep cs] by (cases "split sep cs") auto
  with Cons show ?case by auto
qed

lemma total_lines_pieces [simp]:
  "total_lines (stats (count_trailing ln st)) = total_lines (stats st)"
  "total_lines (stats (blank_line st)) = total_lines (stats st)"
  "total_lines (stats (emit_chapter t ls i st)) = total_lines (stats st)"
  "total_lines (stats (emit_paragraph s st)) = total_lines (stats st)"
  by (simp_all add: count_trailing_def blank_line_def emit_chapter_def emit_paragraph_def Let_def)

lemma process_line_total_lines:
  "total_lines (stats (process_line dig ls i st)) = total_lines (stats st)"
  by (simp add: process_line_eq)

lemma optimize_loop_total_lines:
  "total_lines (stats (optimize_loop dig ls i st)) = total_lines (stats st)"
proof (induction dig ls i st rule: optimize_loop.induct)
  case (1 dig ls i st)
  show ?case
  proof (cases "i < length ls")
    case True
    then show ?thesis
      using "1.IH" by (subst optimize_loop.simps) (simp add: process_line_total_lines)
  next
    case False
    then show ?thesis by (subst optimize_loop.simps) simp
  qed
qed

lemma trim_trailing_total_lines:
  "total_lines (stats (trim_trailing st)) = total_lines (stats st)"
proof (induction st rule: trim_trailing.induct)
  case (1 st)
  show ?case
  proof (cases "optimized_lines st \<noteq> [] \<and> strip (last (optimized_lines st)) = []")
    case True
    then show ?thesis
      using "1.IH" by (subst trim_trailing.simps) simp
  next
    case False
    then show ?thesis by (subst trim_trailing.simps) auto
  qed
qed

lemma count_decoded: "count_list (strip_leading_bom (utf_8_sig raw)) NL = count_list raw NL"
proof (cases raw)
  case Nil
  then show ?thesis by (simp add: strip_leading_bom_def utf_8_sig_def)
next
  case (Cons c cs)
  then show ?thesis
    by (cases cs) (simp_all add: strip_leading_bom_def utf_8_sig_def)
qed

text \<open>
  What a successful call does: the output file holds the normalized text, and the console gets
  the seven lines of the report, the counters being those of the final state.
\<close>

lemma optimize_novel_success:
  assumes "files w input_file = Some (Text raw)"
      and "\<not> read_only w (case output_file of None \<Rightarrow> input_file | Some p \<Rightarrow> p)"
  shows "optimize_novel dig input_file output_file w =
           (True,
            print [OptimizeDone (case output_file of None \<Rightarrow> input_file | Some p \<Rightarrow> p),
                   TotalLines (total_lines (stats (final_state dig raw))),
                   OptimizedLines (length (optimized_lines (final_state dig raw))),
                   EmptyLinesRemoved (empty_lines_removed (stats (final_state dig raw))),
                   TrailingSpacesRemoved (trailing_spaces_removed (stats (final_state dig raw))),
                   ChaptersFound (chapters_found (stats (final_state dig raw))),
                   FormattingFixed (formatting_fixed (stats (final_state dig raw)))]
              (w\<lparr>files := (files w)((case output_file of None \<Rightarrow> input_file | Some p \<Rightarrow> p) \<mapsto>
                                        Text (normalized dig raw))\<rparr>))"
  using assms
  by (simp add: optimize_novel_def read_text_def write_text_def Let_def normalized_def
      final_state_def)

text \<open>
  The \<open>total_lines\<close> of a run is the number of line feeds in the text that \<open>read\<close> returned,
  plus one. It is fixed before the first line is transformed (removing a leading byte-order
  mark does not change it), and neither the loop nor the final trimming changes it.
\<close>

lemma total_lines_of_text:
  "total_lines (stats (final_state dig raw)) = count_list raw NL + 1"
  by (simp add: final_state_def normalize_text_def Let_def trim_trailing_total_lines
      optimize_loop_total_lines initial_state_def length_split count_decoded)

lemma count_universal_newlines:
  "count_list (universal_newlines t) NL = count_line_ends t"
  by (induction t rule: universal_newlines.induct) auto

lemma universal_newlines_id: "CR \<notin> set t \<Longrightarrow> universal_newlines t = t"
  by (induction t rule: universal_newlines.induct) auto

text \<open>The decoder's removal of a leading byte-order mark and the translation commute.\<close>

lemma utf_8_sig_universal_newlines:
  "utf_8_sig (universal_newlines t) = universal_newlines (utf_8_sig t)"
proof (cases t)
  case Nil
  then show ?thesis by (simp add: utf_8_sig_def)
next
  case (Cons c cs)
  then show ?thesis by (cases cs) (auto simp: utf_8_sig_def)
qed

text \<open>
  C9, as stated, fails for a file with a carriage return that no line feed follows: the input
  of the letter a, a carriage return and the letter b has no line feed, so the number of line
  feeds plus one is 1, and the Normalizer reports 2 lines.
\<close>

theorem total_lines_lone_carriage_return:
  "total_lines (stats (final_state ascii_digit (universal_newlines [0x61, CR, 0x62]))) = 2 \<and>
   count_list [0x61, CR, 0x62] NL + 1 = 1"
  by (simp add: total_lines_of_text)

text \<open>
  C9, amended. For every file, the \<open>total_lines\<close> the Normalizer reports is the number of
  line feeds in the text as text mode hands it over, plus one; that is the number of line ends
  of the input (a line feed, a carriage return, or the pair counted once) plus one. For an
  input with no carriage return it is the number of line feeds of the input plus one.
\<close>

theorem total_lines_counts_line_ends:
  "total_lines (stats (final_state dig (universal_newlines t))) =
     count_list (universal_newlines t) NL + 1 \<and>
   count_list (universal_newlines t) NL = count_line_ends t \<and>
   (CR \<notin> set t \<longrightarrow>
      total_lines (stats (final_state dig (universal_newlines t))) = count_list t NL + 1)"
  by (simp add: total_lines_of_text count_universal_newlines universal_newlines_id)

text \<open>
  C9, witness: two lines separated by a line feed give 2; the letter a, a carriage return
  with a line feed, the letter b and a carriage return give 3.
\<close>

theorem total_lines_counts_line_ends_witness:
  "CR \<notin> set [0x61, NL, 0x62] \<and>
   total_lines (stats (final_state ascii_digit (universal_newlines [0x61, NL, 0x62]))) = 2 \<and>
   total_lines (stats (final_state ascii_digit (universal_newlines [0x61, CR, NL, 0x62, CR]))) = 3"
  using total_lines_counts_line_ends [of ascii_digit "[0x61, NL, 0x62]"]
    total_lines_counts_line_ends [of ascii_digit "[0x61, CR, NL, 0x62, CR]"]
  by simp

section \<open>The example of the specification\<close>

lemmas run_simps = final_state_def normalized_def strip_leading_bom_def utf_8_sig_def
  normalize_text_def

lemmas heading_simps = is_chapter_def chapter_patterns_def lstrip_chars_def cjk_numeral_def
  blanks_before_def blanks_after_def

lemma sample_state:
  "dig 0x32 \<Longrightarrow> final_state dig chapter_sample =
     \<lparr>optimized_lines =
        [[FW, FW, DI, 0x4E00, ZHANG, 0x20, 0x5F00, 0x59CB], [], [FW, FW, 0x5185, 0x5BB9], [],
         [FW, FW, DI, 0x32, ZHANG, 0x20, 0x7EE7, 0x7EED], [],
         [FW, FW, 0x66F4, 0x591A, 0x5185, 0x5BB9]],
      prev_empty = False,
      stats = \<lparr>total_lines = 6, empty_lines_removed = 1, chapters_found = 2,
               formatting_fixed = 2, trailing_spaces_removed = 0\<rparr>\<rparr>"
  unfolding run_simps Let_def chapter_sample_def
  by (simp add: eval_simps)

text \<open>
  C2, as stated, fails: on the example the first heading is the first line of the output, so
  no blank line precedes it (line 77 inserts one only when \<open>optimized_lines\<close> is not empty).
\<close>

theorem chapter_sample_first_heading_unpreceded:
  "is_chapter ascii_digit
     (lstrip_chars [FW] (optimized_lines (final_state ascii_digit chapter_sample) ! 0)) \<and>
   blanks_before (optimized_lines (final_state ascii_digit chapter_sample)) 0 \<noteq> 1"
  by (simp add: sample_state ascii_digit_def heading_simps)

text \<open>
  C2, amended. On the example the Normalizer reports two chapters; its output has two heading
  lines; each of them is followed by exactly one blank line, and preceded by exactly one blank
  line unless it is the first line of the output, which nothing precedes. (\<open>dig\<close> is any digit
  class that has the digit 2.)
\<close>

theorem chapter_sample_headings:
  assumes "dig 0x32"
  shows "chapters_found (stats (final_state dig chapter_sample)) = 2 \<and>
         length (filter (\<lambda>l. is_chapter dig (lstrip_chars [FW] l))
                   (optimized_lines (final_state dig chapter_sample))) = 2 \<and>
         (\<forall>k < length (optimized_lines (final_state dig chapter_sample)).
            is_chapter dig (lstrip_chars [FW] (optimized_lines (final_state dig chapter_sample) ! k)) \<longrightarrow>
              blanks_after (optimized_lines (final_state dig chapter_sample)) k = 1 \<and>
              blanks_before (optimized_lines (final_state dig chapter_sample)) k =
                (if k = 0 then 0 else 1))"
  using assms by (simp add: sample_state heading_simps All_less_Suc)

text \<open>
  C2, witness: with the ASCII digits, the heading at position 4 of the output (the one numbered
  with the digit 2) has exactly one blank line on each side.
\<close>

theorem chapter_sample_headings_witness:
  "ascii_digit 0x32 \<and>
   chapters_found (stats (final_state ascii_digit chapter_sample)) = 2 \<and>
   blanks_after (optimized_lines (final_state ascii_digit chapter_sample)) 4 = 1 \<and>
   blanks_before (optimized_lines (final_state ascii_digit chapter_sample)) 4 = 1"
proof -
  have d: "ascii_digit 0x32" by (simp add: ascii_digit_def)
  have four: "4 < length (optimized_lines (final_state ascii_digit chapter_sample))"
    by (simp add: sample_state d)
  have head: "is_chapter ascii_digit
     (lstrip_chars [FW] (optimized_lines (final_state ascii_digit chapter_sample) ! 4))"
    by (simp add: sample_state d heading_simps)
  show ?thesis
    using chapter_sample_headings [of ascii_digit] d four head by auto
qed

section \<open>A failed read\<close>

lemma read_text_fails:
  "\<forall>raw. files w p \<noteq> Some (Text raw) \<Longrightarrow> \<exists>e. read_text w p = Inl e"
  by (auto simp: read_text_def split: option.splits disk_file.splits)

text \<open>
  C7. When the input file cannot be read (it is missing, may not be opened, or does not
  decode), \<open>optimize_novel\<close> prints the failure, returns \<open>False\<close> and writes nothing: every
  file, the one at the output path too, is as it was.
\<close>

theorem read_failure_no_write:
  assumes "\<forall>raw. files w input_file \<noteq> Some (Text raw)"
  shows "\<exists>e. read_text w input_file = Inl e \<and>
             optimize_novel dig input_file output_file w = (False, print [ReadFailed e] w) \<and>
             files (snd (optimize_novel dig input_file output_file w)) = files w"
proof -
  obtain e where e: "read_text w input_file = Inl e"
    using read_text_fails [OF assms] by blast
  have "optimize_novel dig input_file output_file w = (False, print [ReadFailed e] w)"
    by (simp add: optimize_novel_def e)
  then show ?thesis
    using e by (simp add: print_def)
qed

text \<open>
  C7, witness: the input does not decode, the output path holds a file; the call returns
  \<open>False\<close>, the console has the failure, the files are untouched.
\<close>

theorem read_failure_no_write_witness:
  "(\<forall>raw. files \<lparr>files = [''out.txt'' \<mapsto> Text [0x61], ''novel.txt'' \<mapsto> Undecodable],
                  read_only = (\<lambda>p. False), console = []\<rparr> ''novel.txt'' \<noteq> Some (Text raw)) \<and>
   optimize_novel ascii_digit ''novel.txt'' (Some ''out.txt'')
     \<lparr>files = [''out.txt'' \<mapsto> Text [0x61], ''novel.txt'' \<mapsto> Undecodable],
      read_only = (\<lambda>p. False), console = []\<rparr> =
   (False, \<lparr>files = [''out.txt'' \<mapsto> Text [0x61], ''novel.txt'' \<mapsto> Undecodable],
             read_only = (\<lambda>p. False), console = [ReadFailed UnicodeDecodeError]\<rparr>)"
  using read_failure_no_write
          [of "\<lparr>files = [''out.txt'' \<mapsto> Text [0x61], ''novel.txt'' \<mapsto> Undecodable],
                read_only = (\<lambda>p. False), console = []\<rparr>"
              "''novel.txt''" ascii_digit "Some ''out.txt''"]
  by (auto simp: read_text_def print_def)

section \<open>The issues of the Lint Pass\<close>

lemma issues_at_append [simp]:
  "issues_at t n (xs @ ys) = issues_at t n xs + issues_at t n ys"
  by (simp add: issues_at_def)

lemma issues_at_Nil [simp]: "issues_at t n [] = 0"
  by (simp add: issues_at_def)

lemma lint_line_counter:
  "fst (lint_line i ln (c, acc)) = (if strip ln = [] then c + 1 else 0)"
  by (simp add: lint_line_def Let_def)

lemma lint_line_bom:
  "issues_at BOMChar n (snd (lint_line i ln (c, acc))) =
     issues_at BOMChar n acc + (if n = i \<and> BOM \<in> set ln then 1 else 0)"
  by (simp add: lint_line_def Let_def issues_at_def)

lemma lint_line_consecutive:
  "issues_at ConsecutiveEmpty n (snd (lint_line i ln (c, acc))) =
     issues_at ConsecutiveEmpty n acc + (if n = i \<and> strip ln = [] \<and> 2 < c + 1 then 1 else 0)"
  by (simp add: lint_line_def Let_def issues_at_def)

lemma lint_loop_bom:
  "issues_at BOMChar n (snd (lint_loop i lines (c, acc))) =
     issues_at BOMChar n acc +
     (if i \<le> n \<and> n < i + length lines \<and> BOM \<in> set (lines ! (n - i)) then 1 else 0)"
proof (induction lines arbitrary: i c acc)
  case Nil
  show ?case by simp
next
  case (Cons ln lines)
  obtain c' acc' where step: "lint_line i ln (c, acc) = (c', acc')"
    by (cases "lint_line i ln (c, acc)")
  have acc': "issues_at BOMChar n acc' =
      issues_at BOMChar n acc + (if n = i \<and> BOM \<in> set ln then 1 else 0)"
    using lint_line_bom [of n i ln c acc] step by simp
  show ?case
  proof (cases "n \<le> i")
    case True
    then show ?thesis
      using Cons.IH [of "i + 1" c' acc'] step acc' by auto
  next
    case False
    then obtain d where d: "n = i + Suc d"
      by (metis add_Suc_right less_imp_Suc_add not_le)
    then show ?thesis
      using Cons.IH [of "i + 1" c' acc'] step acc' by simp
  qed
qed

lemma lint_loop_consecutive:
  "issues_at ConsecutiveEmpty n (snd (lint_loop i lines (c, acc))) =
     issues_at ConsecutiveEmpty n acc +
     (if i \<le> n \<and> n < i + length lines \<and> 2 < consecutive_empty_at c lines (n - i) then 1 else 0)"
proof (induction lines arbitrary: i c acc)
  case Nil
  show ?case by simp
next
  case (Cons ln lines)
  obtain c' acc' where step: "lint_line i ln (c, acc) = (c', acc')"
    by (cases "lint_line i ln (c, acc)")
  have c': "c' = (if strip ln = [] then c + 1 else 0)"
    using lint_line_counter [of i ln c acc] step by simp
  have acc': "issues_at ConsecutiveEmpty n acc' =
      issues_at ConsecutiveEmpty n acc + (if n = i \<and> strip ln = [] \<and> 2 < c + 1 then 1 else 0)"
    using lint_line_consecutive [of n i ln c acc] step by simp
  show ?case
  proof (cases "n \<le> i")
    case True
    then show ?thesis
      using Cons.IH [of "i + 1" c' acc'] step acc' by auto
  next
    case False
    then obtain d where d: "n = i + Suc d"
      by (metis add_Suc_right less_imp_Suc_add not_le)
    then show ?thesis
      using Cons.IH [of "i + 1" c' acc'] step acc' c' by simp
  qed
qed

lemma consecutive_empty_at_0:
  "lines \<noteq> [] \<Longrightarrow> consecutive_empty_at c lines 0 = (if strip (lines ! 0) = [] then c + 1 else 0)"
  by (cases lines) simp_all

lemma consecutive_empty_at_Suc:
  "Suc k < length lines \<Longrightarrow>
   consecutive_empty_at c lines (Suc k) =
     (if strip (lines ! Suc k) = [] then consecutive_empty_at c lines k + 1 else 0)"
proof (induction lines arbitrary: c k)
  case Nil
  then show ?case by simp
next
  case (Cons l ls)
  show ?case
  proof (cases k)
    case 0
    with Cons.prems show ?thesis by (cases ls) simp_all
  next
    case (Suc j)
    with Cons.prems Cons.IH [of j] show ?thesis by simp
  qed
qed

lemma excess_iff_three_blank:
  assumes "k < length lines"
  shows "2 < consecutive_empty_at 0 lines k \<longleftrightarrow>
         2 \<le> k \<and> strip (lines ! k) = [] \<and> strip (lines ! (k - 1)) = [] \<and>
         strip (lines ! (k - 2)) = []"
proof -
  have ne: "lines \<noteq> []" using assms by auto
  note z = consecutive_empty_at_0 [OF ne, of 0]
  show ?thesis
  proof (cases k)
    case 0
    then show ?thesis by (simp add: z)
  next
    case (Suc j)
    note k = this
    show ?thesis
    proof (cases j)
      case 0
      with k assms show ?thesis
        by (simp add: consecutive_empty_at_Suc z)
    next
      case (Suc m)
      note j = this
      show ?thesis
      proof (cases m)
        case 0
        with k j assms show ?thesis
          by (simp add: consecutive_empty_at_Suc z)
      next
        case (Suc m')
        with k j assms show ?thesis
          by (simp add: consecutive_empty_at_Suc)
      qed
    qed
  qed
qed

lemma readlines_sample:
  "readlines (utf_8_sig lint_sample) =
     [[0x61, NL], [NL], [0x20, NL], [FW, NL], [NL], [0x62, BOM, NL], [BOM]]"
  by (simp add: utf_8_sig_def lint_sample_def)

text \<open>
  C3, amended. The Lint Pass reads the file with the codec \<open>utf-8-sig\<close>, which drops a
  byte-order mark at the very start of the file. For every line of the text so decoded, the
  issues hold exactly one of type \<open>BOMChar\<close> with that line's number (counted from 1) when the
  line contains U+FEFF, and none when it does not.
\<close>

theorem lint_one_bom_issue_per_line:
  assumes "k < length (readlines (utf_8_sig raw))"
  shows "issues_at BOMChar (k + 1) (lint_issues raw) =
           (if BOM \<in> set (readlines (utf_8_sig raw) ! k) then 1 else 0)"
  using assms by (simp add: lint_issues_def lint_loop_bom)

text \<open>C3, witness: line 6 of the sample contains the mark and gets exactly one such issue.\<close>

theorem lint_one_bom_issue_per_line_witness:
  "5 < length (readlines (utf_8_sig lint_sample)) \<and>
   BOM \<in> set (readlines (utf_8_sig lint_sample) ! 5) \<and>
   issues_at BOMChar 6 (lint_issues lint_sample) = 1"
  using lint_one_bom_issue_per_line [of 5 lint_sample]
  by (simp add: readlines_sample)

text \<open>
  C3, as stated, fails for the mark that is the first character of the file: line 1 of the
  sample file contains it, and no \<open>BOMChar\<close> issue carries the line number 1.
\<close>

theorem lint_first_bom_unreported:
  "BOM \<in> set (readlines lint_sample ! 0) \<and> issues_at BOMChar 1 (lint_issues lint_sample) = 0"
proof
  show "BOM \<in> set (readlines lint_sample ! 0)"
    by (simp add: lint_sample_def)
  show "issues_at BOMChar 1 (lint_issues lint_sample) = 0"
    unfolding lint_issues_def by (subst lint_loop_bom) (simp add: readlines_sample)
qed

text \<open>
  C6. For every file and every line of it, the issues hold exactly one of type
  \<open>ConsecutiveEmpty\<close> with that line's number when the line is blank and the two lines before
  it are blank too (it is past the second blank line of its run), and none otherwise: a run
  of one or two blank lines gives no such issue, a longer one gives one for each blank line
  after the second.
\<close>

theorem lint_excess_blank_run:
  assumes "k < length (readlines (utf_8_sig raw))"
  shows "issues_at ConsecutiveEmpty (k + 1) (lint_issues raw) =
           (if 2 \<le> k \<and> strip (readlines (utf_8_sig raw) ! k) = [] \<and>
               strip (readlines (utf_8_sig raw) ! (k - 1)) = [] \<and>
               strip (readlines (utf_8_sig raw) ! (k - 2)) = [] then 1 else 0)"
  using assms excess_iff_three_blank [OF assms]
  by (simp add: lint_issues_def lint_loop_consecutive)

text \<open>
  C6, witness: lines 2 to 5 of the sample are blank; lines 4 and 5 get one issue each, lines 3
  and 6 none.
\<close>

theorem lint_excess_blank_run_witness:
  "issues_at ConsecutiveEmpty 3 (lint_issues lint_sample) = 0 \<and>
   issues_at ConsecutiveEmpty 4 (lint_issues lint_sample) = 1 \<and>
   issues_at ConsecutiveEmpty 5 (lint_issues lint_sample) = 1 \<and>
   issues_at ConsecutiveEmpty 6 (lint_issues lint_sample) = 0"
  using lint_excess_blank_run [of 2 lint_sample]
    lint_excess_blank_run [of 3 lint_sample] lint_excess_blank_run [of 4 lint_sample]
    lint_excess_blank_run [of 5 lint_sample]
  by (simp add: readlines_sample strip_def lstrip_def rstrip_def isspace_def)

section \<open>Stripping\<close>

lemma rstrip_eq_Nil: "rstrip l = [] \<longleftrightarrow> (\<forall>c\<in>set l. isspace c)"
  by (simp add: rstrip_def dropWhile_eq_Nil_conv)

lemma rstrip_last: "rstrip l \<noteq> [] \<Longrightarrow> \<not> isspace (last (rstrip l))"
  unfolding rstrip_def using hd_dropWhile [of isspace "rev l"]
  by (simp add: last_rev)

lemma set_rstrip: "set (rstrip l) \<subseteq> set l"
  unfolding rstrip_def using set_dropWhileD [of _ isspace "rev l"] by auto

lemma strip_eq_Nil: "strip l = [] \<longleftrightarrow> (\<forall>c\<in>set l. isspace c)"
proof
  assume "strip l = []"
  then have all: "\<forall>c\<in>set (rstrip l). isspace c"
    by (simp add: strip_def lstrip_def dropWhile_eq_Nil_conv)
  have "rstrip l = []"
  proof (rule ccontr)
    assume ne: "rstrip l \<noteq> []"
    then have "last (rstrip l) \<in> set (rstrip l)" by simp
    with all rstrip_last [OF ne] show False by blast
  qed
  then show "\<forall>c\<in>set l. isspace c" by (simp add: rstrip_eq_Nil)
next
  assume "\<forall>c\<in>set l. isspace c"
  then have "rstrip l = []" by (simp add: rstrip_eq_Nil)
  then show "strip l = []" by (simp add: strip_def lstrip_def)
qed

lemma isspace_FW: "isspace FW"
  by (simp add: isspace_def)

lemma not_isspace_BOM: "\<not> isspace BOM"
  by (simp add: isspace_def)

lemma lstrip_chars_no_FW: "take 1 (lstrip_chars [FW] s) \<noteq> [FW]"
proof (cases "lstrip_chars [FW] s")
  case Nil
  then show ?thesis by simp
next
  case (Cons c cs)
  then have "dropWhile (\<lambda>c. c \<in> set [FW]) s \<noteq> []" by (simp add: lstrip_chars_def)
  from hd_dropWhile [OF this] Cons show ?thesis by (simp add: lstrip_chars_def)
qed

lemma set_lstrip_chars: "set (lstrip_chars cs s) \<subseteq> set s"
  unfolding lstrip_chars_def using set_dropWhileD [of _ "\<lambda>c. c \<in> set cs" s] by auto

section \<open>The lines the loop emits\<close>

lemma lines_pieces:
  "optimized_lines (count_trailing ln st) = optimized_lines st"
  "set (optimized_lines (blank_line st)) \<subseteq> insert [] (set (optimized_lines st))"
  "set (optimized_lines (emit_chapter t ls i st)) \<subseteq>
     insert [] (insert ([FW, FW] @ t) (set (optimized_lines st)))"
  "set (optimized_lines (emit_paragraph s st)) \<subseteq>
     insert ([FW, FW] @ lstrip_chars [FW] s) (set (optimized_lines st))"
  by (auto simp: count_trailing_def blank_line_def emit_chapter_def emit_paragraph_def Let_def)

lemma process_line_lines:
  "set (optimized_lines (process_line dig ls i st)) \<subseteq>
     insert [] (insert (indent_of (ls ! i)) (set (optimized_lines st)))"
  using lines_pieces(2) [of "count_trailing (ls ! i) st"]
    lines_pieces(3) [of "lstrip_chars [FW] (replace_by_empty BOM (rstrip (ls ! i)))" ls i
                        "(count_trailing (ls ! i) st)\<lparr>prev_empty := False\<rparr>"]
    lines_pieces(4) [of "replace_by_empty BOM (rstrip (ls ! i))"
                        "(count_trailing (ls ! i) st)\<lparr>prev_empty := False\<rparr>"]
  by (auto simp: process_line_eq lines_pieces(1) indent_of_def)

lemma optimize_loop_lines:
  "set (optimized_lines (optimize_loop dig ls i st)) \<subseteq>
     insert [] (indent_of ` set ls \<union> set (optimized_lines st))"
proof (induction dig ls i st rule: optimize_loop.induct)
  case (1 dig ls i st)
  show ?case
  proof (cases "i < length ls")
    case True
    have "indent_of (ls ! i) \<in> indent_of ` set ls" using True by simp
    then show ?thesis
      using "1.IH" [OF True] process_line_lines [of dig ls i st] True
      by (subst optimize_loop.simps) auto
  next
    case False
    then show ?thesis by (subst optimize_loop.simps) auto
  qed
qed

lemma trim_trailing_lines:
  "set (optimized_lines (trim_trailing st)) \<subseteq> set (optimized_lines st)"
proof (induction st rule: trim_trailing.induct)
  case (1 st)
  show ?case
  proof (cases "optimized_lines st \<noteq> [] \<and> strip (last (optimized_lines st)) = []")
    case True
    then show ?thesis
      using "1.IH" [OF True] in_set_butlastD [of _ "optimized_lines st"]
      by (subst trim_trailing.simps) auto
  next
    case False
    then show ?thesis by (subst trim_trailing.simps) auto
  qed
qed

lemma final_state_lines:
  "set (optimized_lines (final_state dig raw)) \<subseteq>
     insert [] (indent_of ` set (split NL (strip_leading_bom (utf_8_sig raw))))"
  using trim_trailing_lines [of "optimize_loop dig (split NL (strip_leading_bom (utf_8_sig raw))) 0
      (initial_state (split NL (strip_leading_bom (utf_8_sig raw))))"]
    optimize_loop_lines [of dig "split NL (strip_leading_bom (utf_8_sig raw))" 0
      "initial_state (split NL (strip_leading_bom (utf_8_sig raw)))"]
  by (auto simp: final_state_def normalize_text_def Let_def initial_state_def)

lemma indented_indent_of: "indented (indent_of ln)"
  using lstrip_chars_no_FW [of "replace_by_empty BOM (rstrip ln)"]
  by (simp add: indented_def indent_of_def)

text \<open>
  C5. Every line of the Normalizer's output that is not empty, whether a paragraph or a
  heading and so every line that is neither blank nor a heading, starts with two full-width
  spaces, and what follows them does not start with a full-width space.
\<close>

theorem output_lines_indented:
  assumes "l \<in> set (optimized_lines (final_state dig raw))" and "l \<noteq> []"
  shows "indented l"
  using assms final_state_lines [of dig raw] indented_indent_of by auto

lemma space_bom_state:
  "optimized_lines (final_state dig space_bom_sample) =
      [[FW, FW, 0x61], [FW, FW, 0x20], [FW, FW, 0x62]]"
  unfolding run_simps Let_def space_bom_sample_def
  by (simp add: eval_simps)

text \<open>C5, witness: the first line of the output for the sample with the letters a and b.\<close>

theorem output_lines_indented_witness:
  "[FW, FW, 0x61] \<in> set (optimized_lines (final_state ascii_digit space_bom_sample)) \<and>
   [FW, FW, 0x61] \<noteq> [] \<and> indented [FW, FW, 0x61]"
proof -
  have mem: "[FW, FW, 0x61] \<in> set (optimized_lines (final_state ascii_digit space_bom_sample))"
    by (simp add: space_bom_state)
  show ?thesis
    using output_lines_indented [OF mem] mem by simp
qed

section \<open>The text that is written\<close>

lemma split_no_sep: "l \<in> set (split sep s) \<Longrightarrow> sep \<notin> set l"
proof (induction s arbitrary: l)
  case Nil
  then show ?case by simp
next
  case (Cons c cs)
  show ?case
  proof (cases "c = sep")
    case True
    with Cons show ?thesis by auto
  next
    case False
    obtain x xs where sp: "split sep cs = x # xs"
      using split_not_Nil [of sep cs] by (cases "split sep cs") auto
    with Cons.prems False have "l = c # x \<or> l \<in> set xs" by simp
    then show ?thesis
      using Cons.IH [of x] Cons.IH [of l] sp False by auto
  qed
qed

lemma set_split: "l \<in> set (split sep s) \<Longrightarrow> set l \<subseteq> set s"
proof (induction s arbitrary: l)
  case Nil
  then show ?case by simp
next
  case (Cons c cs)
  show ?case
  proof (cases "c = sep")
    case True
    with Cons show ?thesis by auto
  next
    case False
    obtain x xs where sp: "split sep cs = x # xs"
      using split_not_Nil [of sep cs] by (cases "split sep cs") auto
    with Cons.prems False have "l = c # x \<or> l \<in> set xs" by simp
    then show ?thesis
      using Cons.IH [of x] Cons.IH [of l] sp False by auto
  qed
qed

lemma set_indent_of: "set (indent_of ln) \<subseteq> insert FW (set ln - {BOM})"
  using set_lstrip_chars [of "[FW]" "replace_by_empty BOM (rstrip ln)"] set_rstrip [of ln]
  by (auto simp: indent_of_def replace_by_empty_def)

lemma trim_trailing_last:
  "optimized_lines (trim_trailing st) = [] \<or>
   strip (last (optimized_lines (trim_trailing st))) \<noteq> []"
proof (induction st rule: trim_trailing.induct)
  case (1 st)
  show ?case
  proof (cases "optimized_lines st \<noteq> [] \<and> strip (last (optimized_lines st)) = []")
    case True
    then show ?thesis
      using "1.IH" [OF True] by (subst (1 2) trim_trailing.simps) simp
  next
    case False
    then show ?thesis by (subst (1 2) trim_trailing.simps) auto
  qed
qed

lemma trim_trailing_all_blank:
  "\<forall>l\<in>set (optimized_lines st). strip l = [] \<Longrightarrow> optimized_lines (trim_trailing st) = []"
proof (induction st rule: trim_trailing.induct)
  case (1 st)
  show ?case
  proof (cases "optimized_lines st = []")
    case True
    then show ?thesis by (subst trim_trailing.simps) simp
  next
    case False
    then have c: "optimized_lines st \<noteq> [] \<and> strip (last (optimized_lines st)) = []"
      using "1.prems" by simp
    have "\<forall>l\<in>set (butlast (optimized_lines st)). strip l = []"
      using "1.prems" in_set_butlastD by fastforce
    then show ?thesis
      using "1.IH" [OF c] c by (subst trim_trailing.simps) simp
  qed
qed

lemma join_last:
  "ls \<noteq> [] \<Longrightarrow> last ls \<noteq> [] \<Longrightarrow> join sep ls \<noteq> [] \<and> last (join sep ls) = last (last ls)"
  by (induction sep ls rule: join.induct) auto

lemma set_decoded: "set (strip_leading_bom (utf_8_sig raw)) \<subseteq> set raw"
  using set_drop_subset [of 1 raw] set_drop_subset [of 1 "drop 1 raw"]
    set_drop_subset [of 1 "utf_8_sig raw"]
  by (auto simp: strip_leading_bom_def utf_8_sig_def)

lemma normalized_no_final_newline: "\<not> suffix [NL] (normalized dig raw)"
proof
  assume suf: "suffix [NL] (normalized dig raw)"
  let ?ls = "optimized_lines (final_state dig raw)"
  from suf have ne: "normalized dig raw \<noteq> []" and la: "last (normalized dig raw) = NL"
    by (auto simp: suffix_def)
  have "?ls = [] \<or> strip (last ?ls) \<noteq> []"
    using trim_trailing_last by (simp add: final_state_def normalize_text_def Let_def)
  moreover have "?ls \<noteq> []" using ne by (auto simp: normalized_def)
  ultimately have st: "strip (last ?ls) \<noteq> []" by simp
  then have lne: "last ?ls \<noteq> []" by (auto simp: strip_eq_Nil)
  have "last ?ls \<in> set ?ls" using \<open>?ls \<noteq> []\<close> by simp
  then obtain ln where ln: "ln \<in> set (split NL (strip_leading_bom (utf_8_sig raw)))"
      and eq: "last ?ls = indent_of ln"
    using final_state_lines [of dig raw] lne by auto
  have "NL \<notin> set (indent_of ln)"
    using split_no_sep [OF ln] set_indent_of [of ln] by auto
  moreover have "last (normalized dig raw) \<in> set (last ?ls)"
    using join_last [OF \<open>?ls \<noteq> []\<close> lne, of NL] lne by (simp add: normalized_def)
  ultimately show False using la eq by simp
qed

lemma normalized_all_blank:
  assumes "\<forall>c\<in>set raw. isspace c \<or> c = BOM"
  shows "normalized dig raw = []"
proof -
  let ?ls = "split NL (strip_leading_bom (utf_8_sig raw))"
  have "\<forall>l\<in>set (optimized_lines (optimize_loop dig ?ls 0 (initial_state ?ls))). strip l = []"
  proof
    fix l assume "l \<in> set (optimized_lines (optimize_loop dig ?ls 0 (initial_state ?ls)))"
    then have "l = [] \<or> l \<in> indent_of ` set ?ls"
      using optimize_loop_lines [of dig ?ls 0 "initial_state ?ls"]
      by (auto simp: initial_state_def)
    then show "strip l = []"
    proof
      assume "l = []" then show ?thesis by (simp add: strip_eq_Nil)
    next
      assume "l \<in> indent_of ` set ?ls"
      then obtain ln where ln: "ln \<in> set ?ls" and l: "l = indent_of ln" by auto
      have "set ln \<subseteq> set raw" using set_split [OF ln] set_decoded [of raw] by auto
      then have "\<forall>c\<in>set l. isspace c"
        using set_indent_of [of ln] assms l isspace_FW by auto
      then show ?thesis by (simp add: strip_eq_Nil)
    qed
  qed
  from trim_trailing_all_blank [OF this] show ?thesis
    by (simp add: normalized_def final_state_def normalize_text_def Let_def)
qed

lemma optimize_novel_writes:
  assumes "files w input_file = Some (Text raw)"
      and "\<not> read_only w (case output_file of None \<Rightarrow> input_file | Some p \<Rightarrow> p)"
  shows "fst (optimize_novel dig input_file output_file w) \<and>
         files (snd (optimize_novel dig input_file output_file w)) =
           (files w)((case output_file of None \<Rightarrow> input_file | Some p \<Rightarrow> p) \<mapsto>
                     Text (normalized dig raw))"
  using assms
  by (simp add: optimize_novel_def read_text_def write_text_def Let_def print_def
      normalized_def final_state_def)

text \<open>
  C10. When the input is read and the output can be written, the text \<open>optimize_novel\<close>
  writes is the output lines joined by single line feeds, and it never ends with a line feed,
  whatever the input ended with; an input of whitespace (and byte-order marks) only, the
  empty one included, gives the empty text.
\<close>

theorem written_text_no_final_newline:
  assumes "files w input_file = Some (Text raw)"
      and "\<not> read_only w (case output_file of None \<Rightarrow> input_file | Some p \<Rightarrow> p)"
  shows "files (snd (optimize_novel dig input_file output_file w))
           (case output_file of None \<Rightarrow> input_file | Some p \<Rightarrow> p) =
           Some (Text (normalized dig raw)) \<and>
         normalized dig raw = join NL (optimized_lines (final_state dig raw)) \<and>
         \<not> suffix [NL] (normalized dig raw) \<and>
         ((\<forall>c\<in>set raw. isspace c \<or> c = BOM) \<longrightarrow> normalized dig raw = [])"
  using optimize_novel_writes [OF assms, of dig] normalized_no_final_newline [of dig raw]
    normalized_all_blank [of raw dig]
  by (simp add: normalized_def)

text \<open>
  C10, witness: a file of two blank lines that ends with a line feed is overwritten with the
  empty text.
\<close>

theorem written_text_no_final_newline_witness:
  "files \<lparr>files = [''novel.txt'' \<mapsto> Text [0x20, NL, FW, NL]], read_only = (\<lambda>p. False), console = []\<rparr>
     ''novel.txt'' = Some (Text [0x20, NL, FW, NL]) \<and>
   isspace 0x20 \<and> isspace NL \<and> isspace FW \<and>
   files (snd (optimize_novel ascii_digit ''novel.txt'' None
                 \<lparr>files = [''novel.txt'' \<mapsto> Text [0x20, NL, FW, NL]], read_only = (\<lambda>p. False),
                  console = []\<rparr>)) ''novel.txt'' = Some (Text [])"
  using written_text_no_final_newline
          [of "\<lparr>files = [''novel.txt'' \<mapsto> Text [0x20, NL, FW, NL]], read_only = (\<lambda>p. False),
                console = []\<rparr>" "''novel.txt''" "[0x20, NL, FW, NL]" None ascii_digit]
  by (simp add: isspace_def normalized_def)

section \<open>Runs of blank lines\<close>

lemma blank_stripped:
  "set ln \<subseteq> {FW} \<or> strip ln = [] \<Longrightarrow> replace_by_empty BOM (rstrip ln) = []"
proof -
  assume "set ln \<subseteq> {FW} \<or> strip ln = []"
  then have "\<forall>c\<in>set ln. isspace c"
    using isspace_FW by (auto simp: strip_eq_Nil)
  then have "rstrip ln = []" by (simp add: rstrip_eq_Nil)
  then show ?thesis by (simp add: replace_by_empty_def)
qed

lemma process_line_blank:
  "set (ls ! i) \<subseteq> {FW} \<or> strip (ls ! i) = [] \<Longrightarrow>
   process_line dig ls i st = blank_line (count_trailing (ls ! i) st)"
  by (simp add: process_line_eq blank_stripped)

lemma blank_line_fields:
  "optimized_lines (blank_line (count_trailing ln st)) =
     optimized_lines st @ (if prev_empty st then [] else [[]])"
  "prev_empty (blank_line (count_trailing ln st))"
  "chapters_found (stats (blank_line (count_trailing ln st))) = chapters_found (stats st)"
  "formatting_fixed (stats (blank_line (count_trailing ln st))) = formatting_fixed (stats st)"
  by (simp_all add: blank_line_def count_trailing_def)

lemma loop_steps_blank_run:
  assumes "\<forall>k. i \<le> k \<and> k < i + n \<longrightarrow> set (ls ! k) \<subseteq> {FW} \<or> strip (ls ! k) = []"
  shows "optimized_lines (loop_steps dig ls i n st) =
           optimized_lines st @ (if n = 0 \<or> prev_empty st then [] else [[]]) \<and>
         prev_empty (loop_steps dig ls i n st) = (prev_empty st \<or> 0 < n) \<and>
         chapters_found (stats (loop_steps dig ls i n st)) = chapters_found (stats st) \<and>
         formatting_fixed (stats (loop_steps dig ls i n st)) = formatting_fixed (stats st)"
  using assms
proof (induction n arbitrary: i st)
  case 0
  show ?case by simp
next
  case (Suc n)
  have here: "set (ls ! i) \<subseteq> {FW} \<or> strip (ls ! i) = []"
    using Suc.prems by simp
  have rest: "\<forall>k. i + 1 \<le> k \<and> k < i + 1 + n \<longrightarrow> set (ls ! k) \<subseteq> {FW} \<or> strip (ls ! k) = []"
    using Suc.prems by simp
  show ?case
    using Suc.IH [OF rest, of "blank_line (count_trailing (ls ! i) st)"]
    by (simp add: process_line_blank [OF here] blank_line_fields)
qed

lemma optimize_loop_steps:
  "i + n \<le> length ls \<Longrightarrow>
   optimize_loop dig ls i st = optimize_loop dig ls (i + n) (loop_steps dig ls i n st)"
proof (induction n arbitrary: i st)
  case 0
  show ?case by simp
next
  case (Suc n)
  then have "i < length ls" and "i + 1 + n \<le> length ls" by simp_all
  then show ?case
    using Suc.IH [of "i + 1" "process_line dig ls i st"]
    by (subst optimize_loop.simps) simp
qed

text \<open>
  C8. Take a run of \<open>n\<close> lines from line \<open>i\<close> on, each made of full-width spaces only or
  blank in the ordinary sense (nothing but whitespace). Each of them is classified as blank:
  its stripped text is empty. The loop passes the run emitting at most one empty line (one
  if the run is not empty and the line before it was not blank, none otherwise) and no
  paragraph: nothing else is appended, and \<open>formatting_fixed\<close> does not move.
\<close>

theorem blank_run_collapses:
  assumes "i + n \<le> length ls"
      and "\<forall>k. i \<le> k \<and> k < i + n \<longrightarrow> set (ls ! k) \<subseteq> {FW} \<or> strip (ls ! k) = []"
  shows "optimize_loop dig ls i st = optimize_loop dig ls (i + n) (loop_steps dig ls i n st) \<and>
         optimized_lines (loop_steps dig ls i n st) =
           optimized_lines st @ (if n = 0 \<or> prev_empty st then [] else [[]]) \<and>
         prev_empty (loop_steps dig ls i n st) = (prev_empty st \<or> 0 < n) \<and>
         formatting_fixed (stats (loop_steps dig ls i n st)) = formatting_fixed (stats st) \<and>
         (\<forall>k. i \<le> k \<and> k < i + n \<longrightarrow> replace_by_empty BOM (rstrip (ls ! k)) = [])"
  using optimize_loop_steps [OF assms(1), of dig st]
    loop_steps_blank_run [OF assms(2), of dig st] assms(2) blank_stripped
  by auto

text \<open>
  C8, witness: after the paragraph a, the lines of two full-width spaces, of nothing and of one
  full-width space give one empty line.
\<close>

theorem blank_run_collapses_witness:
  "set ([[0x61], [FW, FW], [], [FW], [0x62]] ! 1) \<subseteq> {FW} \<and>
   strip ([[0x61], [FW, FW], [], [FW], [0x62]] ! 2) = [] \<and>
   set ([[0x61], [FW, FW], [], [FW], [0x62]] ! 3) \<subseteq> {FW} \<and>
   optimized_lines
     (loop_steps ascii_digit [[0x61], [FW, FW], [], [FW], [0x62]] 1 3
        \<lparr>optimized_lines = [[FW, FW, 0x61]], prev_empty = False,
         stats = \<lparr>total_lines = 5, empty_lines_removed = 0, chapters_found = 0,
                  formatting_fixed = 1, trailing_spaces_removed = 0\<rparr>\<rparr>) =
     [[FW, FW, 0x61], []]"
proof -
  let ?ls = "[[0x61], [FW, FW], [], [FW], [0x62 :: nat]]"
  have run: "\<forall>k. 1 \<le> k \<and> k < 1 + 3 \<longrightarrow> set (?ls ! k) \<subseteq> {FW} \<or> strip (?ls ! k) = []"
  proof (intro allI impI)
    fix k :: nat assume "1 \<le> k \<and> k < 1 + 3"
    then have "k = 1 \<or> k = 2 \<or> k = 3" by auto
    then show "set (?ls ! k) \<subseteq> {FW} \<or> strip (?ls ! k) = []"
      by (auto simp: strip_eq_Nil)
  qed
  have len: "1 + 3 \<le> length ?ls" by simp
  show ?thesis
    using blank_run_collapses [OF len run, of ascii_digit
        "\<lparr>optimized_lines = [[FW, FW, 0x61]], prev_empty = False,
          stats = \<lparr>total_lines = 5, empty_lines_removed = 0, chapters_found = 0,
                   formatting_fixed = 1, trailing_spaces_removed = 0\<rparr>\<rparr>"]
    by (simp add: strip_eq_Nil)
qed

section \<open>Lines in their final form\<close>

lemma rstrip_id: "l \<noteq> [] \<Longrightarrow> \<not> isspace (last l) \<Longrightarrow> rstrip l = l"
  by (cases l rule: rev_cases) (simp_all add: rstrip_def)

lemma replace_id: "c \<notin> set l \<Longrightarrow> replace_by_empty c l = l"
  by (induction l) (auto simp: replace_by_empty_def)

lemma lstrip_chars_prefixed: "take 1 c \<noteq> [FW] \<Longrightarrow> lstrip_chars [FW] (FW # FW # c) = c"
  by (cases c) (auto simp: lstrip_chars_def)

lemma last_dropWhile:
  "xs \<noteq> [] \<Longrightarrow> \<not> P (last xs) \<Longrightarrow> dropWhile P xs \<noteq> [] \<and> last (dropWhile P xs) = last xs"
  by (induction xs) (auto split: if_splits)

lemma paragraph_form_split:
  "paragraph_form l \<Longrightarrow> l = FW # FW # drop 2 l"
  using append_take_drop_id [of 2 l] by (simp add: paragraph_form_def)

lemma paragraph_form_facts:
  assumes "paragraph_form l"
  shows "l \<noteq> []" and "rstrip l = l" and "replace_by_empty BOM (rstrip l) = l"
    and "lstrip_chars [FW] l = drop 2 l" and "FW # FW # lstrip_chars [FW] l = l"
    and "strip l \<noteq> []" and "indent_of l = l"
proof -
  note sp = paragraph_form_split [OF assms]
  show ne: "l \<noteq> []" using sp by auto
  show rs: "rstrip l = l" using assms ne by (simp add: rstrip_id paragraph_form_def)
  show rp: "replace_by_empty BOM (rstrip l) = l" using assms rs by (simp add: replace_id paragraph_form_def)
  have "lstrip_chars [FW] (FW # FW # drop 2 l) = drop 2 l"
    using assms by (intro lstrip_chars_prefixed) (simp add: paragraph_form_def)
  then show ls: "lstrip_chars [FW] l = drop 2 l" using sp by simp
  show pre: "FW # FW # lstrip_chars [FW] l = l" using ls sp by simp
  have "last l \<in> set l" using ne by simp
  then show "strip l \<noteq> []" using assms by (auto simp: strip_eq_Nil paragraph_form_def)
  show "indent_of l = l" using rp pre by (simp add: indent_of_def)
qed

lemma indent_of_paragraph_form:
  assumes "BOM \<notin> set ln" and "rstrip ln \<noteq> []"
  shows "paragraph_form (indent_of ln)"
proof -
  let ?c = "lstrip_chars [FW] (rstrip ln)"
  have rp: "replace_by_empty BOM (rstrip ln) = rstrip ln"
    using assms(1) set_rstrip [of ln] by (intro replace_id) auto
  have nsp: "\<not> isspace (last (rstrip ln))" using rstrip_last [OF assms(2)] .
  then have "\<not> last (rstrip ln) \<in> set [FW]" using isspace_FW by auto
  from last_dropWhile [of "rstrip ln" "\<lambda>c. c \<in> set [FW]", OF assms(2) this]
  have c: "?c \<noteq> []" "last ?c = last (rstrip ln)" by (simp_all add: lstrip_chars_def)
  have "set ?c \<subseteq> set ln" using set_lstrip_chars [of "[FW]" "rstrip ln"] set_rstrip [of ln] by auto
  then have "BOM \<notin> set ?c" using assms(1) by auto
  then show ?thesis
    using c nsp lstrip_chars_no_FW [of "rstrip ln"]
    by (simp add: paragraph_form_def indent_of_def rp)
qed

lemma not_heading_Nil: "\<not> heading_line dig []"
  by (simp add: heading_line_def is_chapter_def chapter_patterns_def lstrip_chars_def)

lemma heading_indent_of:
  "heading_line dig (indent_of ln) = is_chapter dig (lstrip_chars [FW] (replace_by_empty BOM (rstrip ln)))"
  using lstrip_chars_prefixed [OF lstrip_chars_no_FW, of "replace_by_empty BOM (rstrip ln)"]
  by (simp add: heading_line_def indent_of_def)

section \<open>The first run on a text without byte-order marks\<close>

lemma piece_fields:
  "optimized_lines (count_trailing ln st) = optimized_lines st"
  "prev_empty (count_trailing ln st) = prev_empty st"
  "optimized_lines (blank_line st) = optimized_lines st @ (if prev_empty st then [] else [[]])"
  "prev_empty (blank_line st)"
  "optimized_lines (emit_chapter t ls i st) =
     optimized_lines st @
     (if optimized_lines st \<noteq> [] \<and> strip (last (optimized_lines st)) \<noteq> [] then [[]] else []) @
     [[FW, FW] @ t] @
     (if i + 1 < length ls \<and> strip (ls ! (i + 1)) \<noteq> [] then [[]] else [])"
  "prev_empty (emit_chapter t ls i st) = prev_empty st"
  "optimized_lines (emit_paragraph s st) = optimized_lines st @ [[FW, FW] @ lstrip_chars [FW] s]"
  "prev_empty (emit_paragraph s st) = prev_empty st"
  by (simp_all add: count_trailing_def blank_line_def emit_chapter_def emit_paragraph_def Let_def)

lemma process_line_fields:
  "optimized_lines (process_line dig ls i st) =
     (if replace_by_empty BOM (rstrip (ls ! i)) = []
      then optimized_lines st @ (if prev_empty st then [] else [[]])
      else if is_chapter dig (lstrip_chars [FW] (replace_by_empty BOM (rstrip (ls ! i))))
      then optimized_lines st @
           (if optimized_lines st \<noteq> [] \<and> strip (last (optimized_lines st)) \<noteq> [] then [[]] else []) @
           [indent_of (ls ! i)] @
           (if i + 1 < length ls \<and> strip (ls ! (i + 1)) \<noteq> [] then [[]] else [])
      else optimized_lines st @ [indent_of (ls ! i)])"
  "prev_empty (process_line dig ls i st) = (replace_by_empty BOM (rstrip (ls ! i)) = [])"
  by (simp_all add: process_line_eq piece_fields indent_of_def)

lemma replace_by_empty_Nil [simp]: "replace_by_empty c [] = []"
  by (simp add: replace_by_empty_def)

lemma successively_snoc:
  "successively P (xs @ [x]) \<longleftrightarrow> successively P xs \<and> (xs = [] \<or> P (last xs) x)"
  by (simp add: successively_append_iff)

lemma neighbours_simps:
  "neighbours dig a [] \<longleftrightarrow> a \<noteq> []"
  "neighbours dig [] b \<longleftrightarrow> b \<noteq> []"
  by (auto simp: neighbours_def not_heading_Nil)

lemma process_line_inv:
  assumes bom: "\<forall>ln\<in>set ls. BOM \<notin> set ln" and i: "i < length ls"
      and inv: "loop_inv dig ls i st"
  shows "loop_inv dig ls (i + 1) (process_line dig ls i st)"
proof -
  let ?ln = "ls ! i" and ?ol = "optimized_lines st"
  have nb: "BOM \<notin> set ?ln" using bom i by simp
  have rp: "replace_by_empty BOM (rstrip ?ln) = rstrip ?ln"
    using nb set_rstrip [of ?ln] by (intro replace_id) auto
  have blank_iff: "rstrip ?ln = [] \<longleftrightarrow> strip ?ln = []"
    by (simp add: rstrip_eq_Nil strip_eq_Nil)
  from inv have J1: "\<forall>l\<in>set ?ol. l = [] \<or> paragraph_form l"
    and J2: "successively (neighbours dig) ?ol"
    and J4: "prev_empty st \<longrightarrow> ?ol \<noteq> [] \<and> last ?ol = []"
    and J5: "?ol \<noteq> [] \<and> last ?ol = [] \<and> \<not> prev_empty st \<longrightarrow> strip ?ln \<noteq> []"
    and J6: "?ol \<noteq> [] \<and> heading_line dig (last ?ol) \<longrightarrow> strip ?ln = []"
    using i by (auto simp: loop_inv_def)
  let ?st' = "process_line dig ls i st"
  have pe': "prev_empty ?st' = (rstrip ?ln = [])"
    by (simp add: process_line_fields rp)
  show ?thesis
  proof (cases "rstrip ?ln = []")
    case True
    then have bl: "strip ?ln = []" using blank_iff by simp
    have ol': "optimized_lines ?st' = ?ol @ (if prev_empty st then [] else [[]])"
      using True by (simp add: process_line_fields rp)
    show ?thesis
    proof (cases "prev_empty st")
      case True
      then show ?thesis
        using \<open>rstrip ?ln = []\<close> J1 J2 J4
        unfolding loop_inv_def ol' pe' by (simp add: not_heading_Nil)
    next
      case False
      then have "?ol = [] \<or> last ?ol \<noteq> []" using J5 bl by auto
      then show ?thesis
        using \<open>rstrip ?ln = []\<close> False J1 J2
        unfolding loop_inv_def ol' pe'
        by (auto simp: not_heading_Nil successively_snoc neighbours_simps)
    qed
  next
    case False
    then have nbl: "strip ?ln \<noteq> []" using blank_iff by simp
    have pf: "paragraph_form (indent_of ?ln)" using indent_of_paragraph_form [OF nb False] .
    then have ne: "indent_of ?ln \<noteq> []" using paragraph_form_facts(1) by blast
    have hd_eq: "heading_line dig (indent_of ?ln) = is_chapter dig (lstrip_chars [FW] (rstrip ?ln))"
      using heading_indent_of [of dig ?ln] by (simp add: rp)
    have nh: "?ol \<noteq> [] \<Longrightarrow> \<not> heading_line dig (last ?ol)" using J6 nbl by auto
    show ?thesis
    proof (cases "is_chapter dig (lstrip_chars [FW] (rstrip ?ln))")
      case True
      then have h: "heading_line dig (indent_of ?ln)" using hd_eq by simp
      have ol': "optimized_lines ?st' =
          ?ol @ (if ?ol \<noteq> [] \<and> strip (last ?ol) \<noteq> [] then [[]] else []) @ [indent_of ?ln] @
          (if i + 1 < length ls \<and> strip (ls ! (i + 1)) \<noteq> [] then [[]] else [])"
        using True False by (simp add: process_line_fields rp)
      have last_blank: "?ol \<noteq> [] \<Longrightarrow> strip (last ?ol) = [] \<Longrightarrow> last ?ol = []"
      proof -
        assume a: "?ol \<noteq> []" "strip (last ?ol) = []"
        then have "last ?ol \<in> set ?ol" by simp
        with J1 have "last ?ol = [] \<or> paragraph_form (last ?ol)" by blast
        then show "last ?ol = []" using a(2) paragraph_form_facts(6) by blast
      qed
      have nonblank_ne: "strip (last ?ol) \<noteq> [] \<Longrightarrow> last ?ol \<noteq> []"
        by (auto simp: strip_eq_Nil)
      show ?thesis
        using False J1 J2 pf ne h nh last_blank nonblank_ne
        unfolding loop_inv_def ol' pe'
        by (auto simp: not_heading_Nil successively_snoc
            successively_append_iff neighbours_simps neighbours_def)
    next
      case nc: False
      then have h: "\<not> heading_line dig (indent_of ?ln)" using hd_eq by simp
      have ol': "optimized_lines ?st' = ?ol @ [indent_of ?ln]"
        using nc False by (simp add: process_line_fields rp)
      show ?thesis
        using False J1 J2 pf ne h nh
        unfolding loop_inv_def ol' pe'
        by (auto simp: successively_snoc neighbours_def)
    qed
  qed
qed

lemma initial_inv: "loop_inv dig ls 0 (initial_state ls)"
  by (simp add: loop_inv_def initial_state_def)

lemma optimize_loop_inv:
  assumes "\<forall>ln\<in>set ls. BOM \<notin> set ln" and "loop_inv dig ls i st"
  shows "(\<forall>l\<in>set (optimized_lines (optimize_loop dig ls i st)). l = [] \<or> paragraph_form l) \<and>
         successively (neighbours dig) (optimized_lines (optimize_loop dig ls i st))"
  using assms
proof (induction dig ls i st rule: optimize_loop.induct)
  case (1 dig ls i st)
  show ?case
  proof (cases "i < length ls")
    case True
    have "loop_inv dig ls (i + 1) (process_line dig ls i st)"
      using process_line_inv [OF "1.prems"(1) True "1.prems"(2)] .
    from "1.IH" [OF True "1.prems"(1) this] show ?thesis
      using True by (subst (1 2) optimize_loop.simps) simp
  next
    case False
    then show ?thesis
      using "1.prems"(2) by (subst (1 2) optimize_loop.simps) (simp add: loop_inv_def)
  qed
qed

lemma successively_butlast: "successively P xs \<Longrightarrow> successively P (butlast xs)"
proof (cases xs rule: rev_cases)
  case Nil
  then show ?thesis by simp
next
  case (snoc ys y)
  assume "successively P xs"
  with snoc show ?thesis by (simp add: successively_append_iff)
qed

lemma trim_trailing_inv:
  assumes "\<forall>l\<in>set (optimized_lines st). l = [] \<or> paragraph_form l"
      and "successively (neighbours dig) (optimized_lines st)"
  shows "normal_form dig (optimized_lines (trim_trailing st))"
  using assms
proof (induction st rule: trim_trailing.induct)
  case (1 st)
  show ?case
  proof (cases "optimized_lines st \<noteq> [] \<and> strip (last (optimized_lines st)) = []")
    case True
    have a: "\<forall>l\<in>set (butlast (optimized_lines st)). l = [] \<or> paragraph_form l"
      using "1.prems"(1) in_set_butlastD by fastforce
    have b: "successively (neighbours dig) (butlast (optimized_lines st))"
      using "1.prems"(2) by (rule successively_butlast)
    show ?thesis
      using "1.IH" [OF True] a b True by (subst trim_trailing.simps) simp
  next
    case False
    then show ?thesis
      using "1.prems" by (subst trim_trailing.simps) (auto simp: normal_form_def)
  qed
qed

lemma final_state_normal_form:
  assumes "BOM \<notin> set (strip_leading_bom (utf_8_sig raw))"
  shows "normal_form dig (optimized_lines (final_state dig raw))"
proof -
  let ?ls = "split NL (strip_leading_bom (utf_8_sig raw))"
  have bom: "\<forall>ln\<in>set ?ls. BOM \<notin> set ln"
    using set_split [of _ NL "strip_leading_bom (utf_8_sig raw)"] assms by blast
  from optimize_loop_inv [OF bom initial_inv]
  have "normal_form dig (optimized_lines (trim_trailing (optimize_loop dig ?ls 0 (initial_state ?ls))))"
    by (intro trim_trailing_inv) simp_all
  then show ?thesis by (simp add: final_state_def normalize_text_def Let_def)
qed

text \<open>
  On a text without byte-order marks (after the decoder and lines 23, 24 took a leading one)
  no two adjacent lines of the output are empty.
\<close>

lemma bom_free_no_adjacent_blanks:
  assumes "BOM \<notin> set (strip_leading_bom (utf_8_sig raw))"
      and "Suc k < length (optimized_lines (final_state dig raw))"
  shows "\<not> (optimized_lines (final_state dig raw) ! k = [] \<and>
            optimized_lines (final_state dig raw) ! Suc k = [])"
proof -
  have "successively (neighbours dig) (optimized_lines (final_state dig raw))"
    using final_state_normal_form [OF assms(1), of dig] by (simp add: normal_form_def)
  from successively_nth [OF this assms(2)] show ?thesis
    by (simp add: neighbours_def)
qed

section \<open>The second run\<close>

lemma process_line_counts:
  "formatting_fixed (stats (process_line dig ls i st)) =
     formatting_fixed (stats st) +
     (if replace_by_empty BOM (rstrip (ls ! i)) \<noteq> [] \<and>
         \<not> is_chapter dig (lstrip_chars [FW] (replace_by_empty BOM (rstrip (ls ! i)))) \<and>
         replace_by_empty BOM (rstrip (ls ! i)) \<noteq> indent_of (ls ! i) then 1 else 0)"
  "empty_lines_removed (stats (process_line dig ls i st)) =
     empty_lines_removed (stats st) +
     (if replace_by_empty BOM (rstrip (ls ! i)) = [] \<and> prev_empty st then 1 else 0)"
  by (simp_all add: process_line_eq count_trailing_def blank_line_def emit_chapter_def
      emit_paragraph_def Let_def indent_of_def)

lemma rstrip_Nil [simp]: "rstrip [] = []"
  by (simp add: rstrip_def)

lemma loop_steps_snoc:
  "loop_steps dig ls i (Suc n) st = process_line dig ls (i + n) (loop_steps dig ls i n st)"
  by (induction n arbitrary: i st) simp_all

lemma last_take: "0 < k \<Longrightarrow> k \<le> length xs \<Longrightarrow> last (take k xs) = xs ! (k - 1)"
  by (cases k) (simp_all add: take_Suc_conv_app_nth)

lemma rerun_steps:
  assumes nf: "normal_form dig doc" and k: "k \<le> length doc"
  shows "optimized_lines (loop_steps dig doc 0 k (initial_state doc)) = take k doc \<and>
         prev_empty (loop_steps dig doc 0 k (initial_state doc)) = (0 < k \<and> doc ! (k - 1) = []) \<and>
         formatting_fixed (stats (loop_steps dig doc 0 k (initial_state doc))) = 0 \<and>
         empty_lines_removed (stats (loop_steps dig doc 0 k (initial_state doc))) = 0"
  using k
proof (induction k)
  case 0
  show ?case by (simp add: initial_state_def)
next
  case (Suc k)
  let ?st = "loop_steps dig doc 0 k (initial_state doc)"
  let ?l = "doc ! k"
  from Suc have kl: "k < length doc" and IH:
    "optimized_lines ?st = take k doc" "prev_empty ?st = (0 < k \<and> doc ! (k - 1) = [])"
    "formatting_fixed (stats ?st) = 0" "empty_lines_removed (stats ?st) = 0"
    by simp_all
  have succ: "successively (neighbours dig) doc" using nf by (simp add: normal_form_def)
  have before: "0 < k \<Longrightarrow> neighbours dig (doc ! (k - 1)) ?l"
    using successively_nth [OF succ, of "k - 1"] kl by simp
  have after: "Suc k < length doc \<Longrightarrow> neighbours dig ?l (doc ! Suc k)"
    using successively_nth [OF succ, of k] by simp
  have tk: "take (Suc k) doc = take k doc @ [?l]"
    using kl by (simp add: take_Suc_conv_app_nth)
  have "?l \<in> set doc" using kl by simp
  then consider (blank) "?l = []" | (filled) "paragraph_form ?l"
    using nf by (auto simp: normal_form_def)
  then show ?case
  proof cases
    case blank
    have np: "\<not> prev_empty ?st"
      using before blank by (auto simp: IH neighbours_def)
    show ?thesis
      unfolding loop_steps_snoc
      using blank np by (simp add: process_line_fields process_line_counts IH tk rstrip_eq_Nil)
  next
    case filled
    note f = paragraph_form_facts [OF filled]
    show ?thesis
    proof (cases "heading_line dig ?l")
      case True
      have pre: "\<not> (take k doc \<noteq> [] \<and> strip (last (take k doc)) \<noteq> [])"
      proof
        assume a: "take k doc \<noteq> [] \<and> strip (last (take k doc)) \<noteq> []"
        then have "0 < k" by (cases k) auto
        then have "doc ! (k - 1) = []" using before True by (simp add: neighbours_def)
        moreover have "last (take k doc) = doc ! (k - 1)"
          using \<open>0 < k\<close> kl by (simp add: last_take)
        ultimately show False using a by (simp add: strip_eq_Nil)
      qed
      have post: "\<not> (k + 1 < length doc \<and> strip (doc ! (k + 1)) \<noteq> [])"
      proof
        assume a: "k + 1 < length doc \<and> strip (doc ! (k + 1)) \<noteq> []"
        then have "doc ! Suc k = []" using after True by (simp add: neighbours_def)
        then show False using a by (simp add: strip_eq_Nil)
      qed
      have ch: "is_chapter dig (lstrip_chars [FW] ?l)" using True by (simp add: heading_line_def)
      show ?thesis
        unfolding loop_steps_snoc
        using pre post ch f(1)
        by (simp add: process_line_fields process_line_counts IH tk f(3) f(7))
    next
      case False
      then have ch: "\<not> is_chapter dig (lstrip_chars [FW] ?l)" by (simp add: heading_line_def)
      show ?thesis
        unfolding loop_steps_snoc
        using ch f(1)
        by (simp add: process_line_fields process_line_counts IH tk f(3) f(7))
    qed
  qed
qed

lemma rerun_state:
  assumes nf: "normal_form dig doc"
  shows "optimized_lines (trim_trailing (optimize_loop dig doc 0 (initial_state doc))) = doc \<and>
         formatting_fixed (stats (trim_trailing (optimize_loop dig doc 0 (initial_state doc)))) = 0 \<and>
         empty_lines_removed (stats (trim_trailing (optimize_loop dig doc 0 (initial_state doc)))) = 0"
proof -
  let ?st = "loop_steps dig doc 0 (length doc) (initial_state doc)"
  have "optimize_loop dig doc 0 (initial_state doc) = optimize_loop dig doc (0 + length doc) ?st"
    by (rule optimize_loop_steps) simp
  also have "\<dots> = ?st" by (subst optimize_loop.simps) simp
  finally have loop: "optimize_loop dig doc 0 (initial_state doc) = ?st" .
  have r: "optimized_lines ?st = doc" "formatting_fixed (stats ?st) = 0"
    "empty_lines_removed (stats ?st) = 0"
    using rerun_steps [OF nf, of "length doc"] by simp_all
  have "trim_trailing ?st = ?st"
    using nf r(1) by (subst trim_trailing.simps) (auto simp: normal_form_def)
  then show ?thesis using loop r by simp
qed

section \<open>From the document back to the text\<close>

lemma split_no_sep_id: "sep \<notin> set l \<Longrightarrow> split sep l = [l]"
  by (induction l) auto

lemma split_append_sep:
  "sep \<notin> set l \<Longrightarrow> split sep (l @ sep # rest) = l # split sep rest"
  by (induction l) auto

lemma split_join:
  "doc \<noteq> [] \<Longrightarrow> \<forall>l\<in>set doc. sep \<notin> set l \<Longrightarrow> split sep (join sep doc) = doc"
  by (induction sep doc rule: join.induct) (simp_all add: split_no_sep_id split_append_sep)

lemma set_join: "set (join sep doc) \<subseteq> insert sep (\<Union>l\<in>set doc. set l)"
  by (induction sep doc rule: join.induct) auto

lemma decode_bom_free:
  "BOM \<notin> set t \<Longrightarrow> strip_leading_bom (utf_8_sig t) = t"
  by (cases t) (auto simp: strip_leading_bom_def utf_8_sig_def)

lemma final_state_empty:
  "optimized_lines (final_state dig []) = [] \<and>
   formatting_fixed (stats (final_state dig [])) = 0 \<and>
   empty_lines_removed (stats (final_state dig [])) = 1"
  unfolding run_simps Let_def by (simp add: eval_simps)

lemma output_lines_no_newline:
  "l \<in> set (optimized_lines (final_state dig raw)) \<Longrightarrow> NL \<notin> set l"
proof -
  assume "l \<in> set (optimized_lines (final_state dig raw))"
  then have "l = [] \<or> l \<in> indent_of ` set (split NL (strip_leading_bom (utf_8_sig raw)))"
    using final_state_lines [of dig raw] by auto
  then show ?thesis
  proof
    assume "l = []" then show ?thesis by simp
  next
    assume "l \<in> indent_of ` set (split NL (strip_leading_bom (utf_8_sig raw)))"
    then obtain ln where ln: "ln \<in> set (split NL (strip_leading_bom (utf_8_sig raw)))"
      and l: "l = indent_of ln" by auto
    show ?thesis using split_no_sep [OF ln] set_indent_of [of ln] l by auto
  qed
qed

text \<open>
  On a text without byte-order marks the second run writes what the first run wrote, line for
  line; it fixes no formatting and removes no empty line, except that the empty text, which is
  one empty segment, has that segment trimmed.
\<close>

lemma bom_free_second_run:
  assumes "BOM \<notin> set (strip_leading_bom (utf_8_sig raw))"
  shows "normalized dig (normalized dig raw) = normalized dig raw \<and>
         optimized_lines (final_state dig (normalized dig raw)) =
           optimized_lines (final_state dig raw) \<and>
         formatting_fixed (stats (final_state dig (normalized dig raw))) = 0 \<and>
         empty_lines_removed (stats (final_state dig (normalized dig raw))) =
           (if normalized dig raw = [] then 1 else 0)"
proof (cases "optimized_lines (final_state dig raw) = []")
  case True
  then have "normalized dig raw = []" by (simp add: normalized_def)
  then show ?thesis
    using True final_state_empty [of dig] by (simp add: normalized_def)
next
  case False
  let ?doc = "optimized_lines (final_state dig raw)"
  let ?t = "normalized dig raw"
  have nf: "normal_form dig ?doc" using final_state_normal_form [OF assms] .
  have nl: "\<forall>l\<in>set ?doc. NL \<notin> set l" using output_lines_no_newline by blast
  have "\<forall>l\<in>set ?doc. BOM \<notin> set l"
    using nf by (auto simp: normal_form_def paragraph_form_def)
  then have "BOM \<notin> set ?t"
    using set_join [of NL ?doc] by (auto simp: normalized_def)
  then have dec: "strip_leading_bom (utf_8_sig ?t) = ?t" by (rule decode_bom_free)
  have sp: "split NL ?t = ?doc"
    using split_join [OF False nl] by (simp add: normalized_def)
  have last_ne: "last ?doc \<noteq> []"
    using nf False by (auto simp: normal_form_def strip_eq_Nil)
  have tne: "?t \<noteq> []"
    using join_last [OF False last_ne, of NL] by (simp add: normalized_def)
  have st: "final_state dig ?t = trim_trailing (optimize_loop dig ?doc 0 (initial_state ?doc))"
    by (simp add: final_state_def dec normalize_text_def Let_def sp)
  have r: "optimized_lines (final_state dig ?t) = ?doc"
    "formatting_fixed (stats (final_state dig ?t)) = 0"
    "empty_lines_removed (stats (final_state dig ?t)) = 0"
    using rerun_state [OF nf] by (simp_all only: st)
  have "normalized dig ?t = join NL (optimized_lines (final_state dig ?t))"
    by (rule normalized_def)
  also have "\<dots> = join NL ?doc" by (simp only: r)
  also have "\<dots> = ?t" by (simp only: normalized_def)
  finally show ?thesis using r tne by simp
qed

section \<open>A byte-order mark inside the text\<close>

lemma bom_line_state:
  "final_state dig bom_line_sample =
     \<lparr>optimized_lines = [[FW, FW, DI, 0x4E00, ZHANG], [], [], [FW, FW, 0x61]],
      prev_empty = False,
      stats = \<lparr>total_lines = 3, empty_lines_removed = 0, chapters_found = 1,
               formatting_fixed = 1, trailing_spaces_removed = 0\<rparr>\<rparr>"
  unfolding run_simps Let_def bom_line_sample_def
  by (simp add: eval_simps)

lemma bom_line_text:
  "normalized dig bom_line_sample = [FW, FW, DI, 0x4E00, ZHANG, NL, NL, NL, FW, FW, 0x61]"
  by (simp add: normalized_def bom_line_state)

lemma bom_line_second_state:
  "final_state dig [FW, FW, DI, 0x4E00, ZHANG, NL, NL, NL, FW, FW, 0x61] =
     \<lparr>optimized_lines = [[FW, FW, DI, 0x4E00, ZHANG], [], [FW, FW, 0x61]],
      prev_empty = False,
      stats = \<lparr>total_lines = 4, empty_lines_removed = 1, chapters_found = 1,
               formatting_fixed = 0, trailing_spaces_removed = 0\<rparr>\<rparr>"
  unfolding run_simps Let_def
  by (simp add: eval_simps)

lemma space_bom_text:
  "normalized dig space_bom_sample = [FW, FW, 0x61, NL, FW, FW, 0x20, NL, FW, FW, 0x62]"
  unfolding run_simps Let_def space_bom_sample_def
  by (simp add: eval_simps)

lemma space_bom_second_text:
  "normalized dig [FW, FW, 0x61, NL, FW, FW, 0x20, NL, FW, FW, 0x62] =
     [FW, FW, 0x61, NL, NL, FW, FW, 0x62]"
  unfolding run_simps Let_def
  by (simp add: eval_simps)

text \<open>
  C4 at a heading followed by a line that holds only a byte-order mark. Line 82 tests the next
  line with \<open>strip\<close>, which keeps the mark, and adds a blank line after the heading; line 46
  then deletes the mark, line 52 finds the line empty and, \<open>prev_empty\<close> being false, adds a
  second one. The output has two adjacent empty lines, at positions 1 and 2.
\<close>

theorem bom_line_two_adjacent_blanks:
  "optimized_lines (final_state dig bom_line_sample) =
     [[FW, FW, DI, 0x4E00, ZHANG], [], [], [FW, FW, 0x61]] \<and>
   optimized_lines (final_state dig bom_line_sample) ! 1 = [] \<and>
   optimized_lines (final_state dig bom_line_sample) ! 2 = []"
  by (simp add: bom_line_state)

text \<open>
  C1 at the same text, and at a text with a line that holds a space and a byte-order mark.
  In the first the second run collapses the two empty lines the first run wrote, and counts
  one removed empty line. In the second the first run writes the line as two full-width
  spaces and a space (\<open>rstrip\<close> stops at the mark, which is deleted afterwards), and the
  second run turns it into an empty line. Neither output is a fixed point.
\<close>

theorem second_run_differs_after_bom:
  "normalized dig (normalized dig bom_line_sample) \<noteq> normalized dig bom_line_sample \<and>
   empty_lines_removed (stats (final_state dig (normalized dig bom_line_sample))) = 1 \<and>
   normalized dig (normalized dig space_bom_sample) \<noteq> normalized dig space_bom_sample"
  by (simp add: bom_line_text bom_line_second_state space_bom_text space_bom_second_text
      normalized_def [of dig "[FW, FW, DI, 0x4E00, ZHANG, NL, NL, NL, FW, FW, 0x61]"])

end
